theory Spec2Isabelle
  imports Main
begin

section \<open>Boards\<close>

text \<open>
  A cell of the source's \<open>(number | null)[][]\<close> is \<open>None\<close> for \<open>null\<close> and
  \<open>Some n\<close> for the number \<open>n\<close>. The filler writes the number \<open>0\<close> for an empty
  cell, the other operations write \<open>null\<close>; both live in the same arrays, so both are
  values of the one cell type. The numbers of a grid are 0 to 9; the code compares them
  and never computes with them, so a natural number stands for each. A board is the array
  of its row arrays.
\<close>

type_synonym cell = "nat option"
type_synonym Board = "cell list list"

datatype Difficulty = Easy | Medium | Hard | Expert

fun DIFFICULTY_CLUES :: "Difficulty \<Rightarrow> nat" where
  "DIFFICULTY_CLUES Easy = 40"
| "DIFFICULTY_CLUES Medium = 32"
| "DIFFICULTY_CLUES Hard = 26"
| "DIFFICULTY_CLUES Expert = 22"

text \<open>The assignment \<open>board[row][col] = v\<close>.\<close>

definition setCell :: "Board \<Rightarrow> nat \<Rightarrow> nat \<Rightarrow> cell \<Rightarrow> Board" where
  "setCell board row col v = board[row := (board ! row)[col := v]]"

text \<open>
  The nested scan \<open>for row < 9, for col < 9: if (test board[row][col]) { ...; return }\<close>
  stops at the first cell in row-major order that passes the test. A read beyond the end
  of a row is \<open>undefined\<close> in the source and passes none of its tests. A read in a
  row that the grid does not have raises a TypeError in the source; every statement below
  is about grids of nine rows of nine cells, where no read goes out of range.
\<close>

definition allCells :: "(nat \<times> nat) list" where
  "allCells = concat (map (\<lambda>row. map (\<lambda>col. (row, col)) [0..<9]) [0..<9])"

definition firstCell :: "(cell \<Rightarrow> bool) \<Rightarrow> Board \<Rightarrow> (nat \<times> nat) option" where
  "firstCell test board =
     find (\<lambda>(row, col). row < length board \<and> col < length (board ! row) \<and> test (board ! row ! col))
       allCells"

section \<open>The constraint checker\<close>

definition isValid :: "Board \<Rightarrow> nat \<Rightarrow> nat \<Rightarrow> nat \<Rightarrow> bool" where
  "isValid board row col num \<longleftrightarrow>
     (\<forall>c \<in> set [0..<9]. board ! row ! c \<noteq> Some num) \<and>
     (\<forall>r \<in> set [0..<9]. board ! r ! col \<noteq> Some num) \<and>
     (let boxRow = row div 3 * 3; boxCol = col div 3 * 3
      in \<forall>r \<in> set [boxRow..<boxRow + 3]. \<forall>c \<in> set [boxCol..<boxCol + 3].
           board ! r ! c \<noteq> Some num)"

definition isValidPlacement :: "Board \<Rightarrow> nat \<Rightarrow> nat \<Rightarrow> nat \<Rightarrow> bool" where
  "isValidPlacement board row col num \<longleftrightarrow>
     (\<forall>c \<in> set [0..<9]. \<not> (c \<noteq> col \<and> board ! row ! c = Some num)) \<and>
     (\<forall>r \<in> set [0..<9]. \<not> (r \<noteq> row \<and> board ! r ! col = Some num)) \<and>
     (let boxRow = row div 3 * 3; boxCol = col div 3 * 3
      in \<forall>r \<in> set [boxRow..<boxRow + 3]. \<forall>c \<in> set [boxCol..<boxCol + 3].
           \<not> ((r \<noteq> row \<or> c \<noteq> col) \<and> board ! r ! c = Some num))"

definition isBoardComplete :: "Board \<Rightarrow> Board \<Rightarrow> bool" where
  "isBoardComplete board solution \<longleftrightarrow>
     (\<forall>r \<in> set [0..<9]. \<forall>c \<in> set [0..<9]. board ! r ! c = solution ! r ! c)"

section \<open>The conflict detector\<close>

text \<open>The template literal \<open>`${r}-${c}`\<close> prints both numbers in decimal.\<close>

function showNat :: "nat \<Rightarrow> string" where
  "showNat n = (if n < 10 then [char_of (48 + n)] else showNat (n div 10) @ [char_of (48 + n mod 10)])"
  by pat_completeness auto
termination
  by (relation "measure id") auto

definition coordKey :: "nat \<Rightarrow> nat \<Rightarrow> string" where
  "coordKey r c = showNat r @ ''-'' @ showNat c"

definition getConflicts :: "Board \<Rightarrow> string set" where
  "getConflicts board =
     fold (\<lambda>(r, c) conflicts.
             case board ! r ! c of
               None \<Rightarrow> conflicts
             | Some val \<Rightarrow>
                 if \<not> isValidPlacement board r c val then insert (coordKey r c) conflicts
                 else conflicts)
          allCells {}"

section \<open>The random source and the shuffle\<close>

text \<open>
  \<open>Math.random\<close> is ambient state. The model passes it explicitly: a random source is
  the infinite sequence of the draws still to come, a draw takes position \<open>0\<close> and leaves
  the rest. \<open>Math.floor(Math.random() * (i + 1))\<close> is some index in \<open>0..i\<close>; the
  model takes the draw as a natural number and reduces it modulo \<open>i + 1\<close>, so that every
  index in \<open>0..i\<close> can come out and nothing else.
\<close>

type_synonym rng = "nat \<Rightarrow> nat"

primrec shuffleLoop :: "nat \<Rightarrow> rng \<Rightarrow> 'a list \<Rightarrow> 'a list \<times> rng" where
  "shuffleLoop 0 rnd a = (a, rnd)"
| "shuffleLoop (Suc k) rnd a =
     (let i = Suc k; j = rnd 0 mod (i + 1)
      in shuffleLoop k (\<lambda>n. rnd (Suc n)) (a[i := a ! j, j := a ! i]))"

definition shuffle :: "rng \<Rightarrow> 'a list \<Rightarrow> 'a list \<times> rng" where
  "shuffle rnd arr = shuffleLoop (length arr - 1) rnd arr"

section \<open>The randomized filler\<close>

text \<open>
  \<open>fillBoard\<close> mutates its board and returns a boolean; the model returns the boolean, the
  random source and the board as they are when the call returns. The loop over the shuffled
  digits is \<open>fillNums\<close>, which receives the recursive call as its first argument. Not
  returning is \<open>None\<close>.
\<close>

fun fillNums :: "(rng \<Rightarrow> Board \<Rightarrow> (bool \<times> rng \<times> Board) option) \<Rightarrow> nat \<Rightarrow> nat \<Rightarrow> nat list
    \<Rightarrow> rng \<Rightarrow> Board \<Rightarrow> (bool \<times> rng \<times> Board) option" where
  "fillNums fill row col [] rnd board = Some (False, rnd, board)"
| "fillNums fill row col (num # nums) rnd board =
     (if isValid board row col num then
        Option.bind (fill rnd (setCell board row col (Some num)))
          (\<lambda>(ok, rnd', board').
             if ok then Some (True, rnd', board')
             else fillNums fill row col nums rnd' (setCell board' row col (Some 0)))
      else fillNums fill row col nums rnd board)"

lemma fillNums_mono [partial_function_mono]:
  "monotone (fun_ord option_ord) option_ord
     (\<lambda>fill. fillNums (\<lambda>rnd board. fill (rnd, board)) row col nums rnd board)"
  by (induction nums arbitrary: rnd board) (auto intro!: partial_function_mono)

partial_function (option) fillBoard :: "rng \<Rightarrow> Board \<Rightarrow> (bool \<times> rng \<times> Board) option" where
  "fillBoard rnd board =
     (case firstCell (\<lambda>v. v = Some 0) board of
        None \<Rightarrow> Some (True, rnd, board)
      | Some (row, col) \<Rightarrow>
          (case shuffle rnd [1, 2, 3, 4, 5, 6, 7, 8, 9] of
             (nums, rnd') \<Rightarrow> fillNums fillBoard row col nums rnd' board))"

text \<open>
  The same function with a bound on the depth of its nested calls: \<open>fillBoardWithin d\<close>
  is a call that may be followed by at most \<open>d - 1\<close> calls nested inside one another,
  and \<open>None\<close> is a call that would nest deeper. It serves to state how deep the
  recursion of \<open>fillBoard\<close> goes.
\<close>

primrec fillBoardWithin :: "nat \<Rightarrow> rng \<Rightarrow> Board \<Rightarrow> (bool \<times> rng \<times> Board) option" where
  "fillBoardWithin 0 rnd board = None"
| "fillBoardWithin (Suc depth) rnd board =
     (case firstCell (\<lambda>v. v = Some 0) board of
        None \<Rightarrow> Some (True, rnd, board)
      | Some (row, col) \<Rightarrow>
          (case shuffle rnd [1, 2, 3, 4, 5, 6, 7, 8, 9] of
             (nums, rnd') \<Rightarrow> fillNums (fillBoardWithin depth) row col nums rnd' board))"

section \<open>The bounded solution counter\<close>

text \<open>
  The loop \<open>for (num = 1; num <= 9; num++)\<close> of \<open>countSolutions\<close> is \<open>countNums\<close>: it
  receives the test \<open>isValid(filled, row, col, num)\<close> and the recursive call on the
  branch's own copy as arguments, and carries \<open>count\<close>.
\<close>

fun countNums :: "(nat \<Rightarrow> bool) \<Rightarrow> (nat \<Rightarrow> int \<Rightarrow> int) \<Rightarrow> int \<Rightarrow> nat list \<Rightarrow> int \<Rightarrow> int" where
  "countNums valid branch limit [] count = count"
| "countNums valid branch limit (num # nums) count =
     (if valid num then
        (let count' = count + branch num (limit - count)
         in if count' \<ge> limit then count' else countNums valid branch limit nums count')
      else countNums valid branch limit nums count)"

lemma countNums_cong [fundef_cong]:
  "valid = valid' \<Longrightarrow> limit = limit' \<Longrightarrow> nums = nums' \<Longrightarrow> count = count' \<Longrightarrow>
   (\<And>num k. num \<in> set nums' \<Longrightarrow> valid' num \<Longrightarrow> branch num k = branch' num k) \<Longrightarrow>
   countNums valid branch limit nums count = countNums valid' branch' limit' nums' count'"
  by (induction nums' arbitrary: nums count count') (auto simp: Let_def)

definition isEmptyCell :: "cell \<Rightarrow> bool" where
  "isEmptyCell v \<longleftrightarrow> v = None \<or> v = Some 0"

definition emptyCells :: "Board \<Rightarrow> nat" where
  "emptyCells board = sum_list (map (\<lambda>row. length (filter isEmptyCell row)) board)"

definition zeroToNull :: "cell \<Rightarrow> cell" where
  "zeroToNull v = (if v = Some 0 then None else v)"

definition nullToZero :: "cell \<Rightarrow> cell" where
  "nullToZero v = (if v = None then Some 0 else v)"

lemma filter_update_less:
  assumes "c < length row" "P (row ! c)" "\<not> P v"
  shows "Suc (length (filter P (row[c := v]))) = length (filter P row)"
proof -
  have a: "row = take c row @ row ! c # drop (Suc c) row"
    using assms(1) by (simp add: id_take_nth_drop)
  have b: "row[c := v] = take c row @ v # drop (Suc c) row"
    using assms(1) by (simp add: upd_conv_take_nth_drop)
  have "length (filter P row) = length (filter P (take c row @ row ! c # drop (Suc c) row))"
    using a by simp
  also have "\<dots> = Suc (length (filter P (take c row @ v # drop (Suc c) row)))"
    using assms(2,3) by simp
  finally show ?thesis using b by simp
qed

lemma emptyCells_setCell:
  assumes "row < length board" "col < length (board ! row)"
    "isEmptyCell (board ! row ! col)" "\<not> isEmptyCell v"
  shows "emptyCells (setCell board row col v) < emptyCells board"
proof -
  let ?f = "\<lambda>row. length (filter isEmptyCell row)"
  have "sum_list ((map ?f board)[row := ?f ((board ! row)[col := v])]) =
        sum_list (map ?f board) + ?f ((board ! row)[col := v]) - (map ?f board) ! row"
    using assms(1) by (simp add: sum_list_update)
  moreover have "Suc (?f ((board ! row)[col := v])) = ?f (board ! row)"
    using assms by (intro filter_update_less) auto
  moreover have "?f (board ! row) \<le> sum_list (map ?f board)"
    using assms(1) by (intro member_le_sum_list) auto
  ultimately show ?thesis
    using assms(1) by (simp add: emptyCells_def setCell_def map_update)
qed

lemma emptyCells_zeroToNull: "emptyCells (map (map zeroToNull) board) = emptyCells board"
proof -
  have "length (filter isEmptyCell (map zeroToNull row)) = length (filter isEmptyCell row)" for row
    by (induction row) (auto simp: isEmptyCell_def zeroToNull_def)
  then show ?thesis by (simp add: emptyCells_def comp_def)
qed

lemma set_allCells: "set allCells = {0..<9} \<times> {0..<9}"
  by (auto simp: allCells_def)

lemma find_Some_mem: "find P xs = Some x \<Longrightarrow> x \<in> set xs \<and> P x"
  by (induction xs) (auto split: if_splits)

lemma firstCell_SomeD:
  assumes "firstCell test board = Some (row, col)"
  shows "row < 9" "col < 9" "row < length board" "col < length (board ! row)"
    "test (board ! row ! col)"
proof -
  from assms have "(row, col) \<in> set allCells \<and> row < length board \<and>
      col < length (board ! row) \<and> test (board ! row ! col)"
    unfolding firstCell_def by (auto dest: find_Some_mem)
  then show "row < 9" "col < 9" "row < length board" "col < length (board ! row)"
    "test (board ! row ! col)"
    by (auto simp: set_allCells)
qed

text \<open>
  Each branch works on \<open>filled\<close>, its own copy of the board with the digit placed, and
  recurses on that copy with every \<open>0\<close> turned into \<open>null\<close>. The default of \<open>limit\<close>
  is \<open>2\<close>.
\<close>

function countSolutions :: "Board \<Rightarrow> int \<Rightarrow> int" where
  "countSolutions board limit =
     (case firstCell (\<lambda>v. v = None) board of
        None \<Rightarrow> 1
      | Some (row, col) \<Rightarrow>
          countNums (\<lambda>num. isValid board row col num)
            (\<lambda>num budget.
               countSolutions (map (map zeroToNull) (setCell board row col (Some num))) budget)
            limit [1, 2, 3, 4, 5, 6, 7, 8, 9] 0)"
  by pat_completeness auto
termination
proof (relation "measure (\<lambda>(board, limit). emptyCells board)", goal_cases)
  case 1
  show ?case by simp
next
  case (2 board limit x2 row col num k)
  then have "firstCell (\<lambda>v. v = None) board = Some (row, col)" by simp
  from firstCell_SomeD[OF this] 2(3) show ?case
    by (auto simp: emptyCells_zeroToNull isEmptyCell_def intro!: emptyCells_setCell)
qed

declare countSolutions.simps [simp del]

section \<open>The clue carver\<close>

text \<open>The copy \<open>board.map((r) => [...r])\<close> has the same cells in fresh arrays.\<close>

definition copyBoard :: "Board \<Rightarrow> Board" where
  "copyBoard board = map (\<lambda>r. map (\<lambda>v. v) r) board"

text \<open>
  The loop \<open>for (const [row, col] of cells)\<close> of \<open>generatePuzzle\<close>, with its
  \<open>break\<close>, carrying \<open>puzzle\<close> and \<open>removed\<close>.
\<close>

fun carve :: "Board \<Rightarrow> (nat \<times> nat) list \<Rightarrow> nat \<Rightarrow> nat \<Rightarrow> Board" where
  "carve puzzle [] removed target = puzzle"
| "carve puzzle ((row, col) # cells) removed target =
     (if removed \<ge> target then puzzle
      else
        (let backup = puzzle ! row ! col;
             puzzle1 = setCell puzzle row col None;
             testBoard = copyBoard puzzle1
         in if countSolutions testBoard 2 \<noteq> 1
            then carve (setCell puzzle1 row col backup) cells removed target
            else carve puzzle1 cells (removed + 1) target))"

text \<open>
  \<open>generatePuzzle\<close> ignores the boolean of \<open>fillBoard\<close> and goes on with the board as
  the filler left it. The result is the pair of \<open>puzzle\<close> and \<open>solution\<close>; \<open>None\<close> is
  a filler that does not return.
\<close>

definition generatePuzzle :: "rng \<Rightarrow> Difficulty \<Rightarrow> (Board \<times> Board) option" where
  "generatePuzzle rnd difficulty =
     (case fillBoard rnd (replicate 9 (replicate 9 (Some 0))) of
        None \<Rightarrow> None
      | Some (ok, rnd1, solution) \<Rightarrow>
          (let puzzle = copyBoard solution;
               (cells, rnd2) = shuffle rnd1 (map (\<lambda>i. (i div 9, i mod 9)) [0..<81]);
               clues = DIFFICULTY_CLUES difficulty;
               target = 81 - clues
           in Some (carve puzzle cells 0 target, copyBoard solution)))"

section \<open>The general solver\<close>

text \<open>
  The inner function \<open>solve\<close> mutates the copy \<open>b\<close> and returns a boolean; the model
  returns the boolean and \<open>b\<close> as it is when the call returns. The loop over the digits
  is \<open>solveNums\<close>, which receives the recursive call as its first argument.
\<close>

fun solveNums :: "(Board \<Rightarrow> (bool \<times> Board) option) \<Rightarrow> nat \<Rightarrow> nat \<Rightarrow> nat list \<Rightarrow> Board
    \<Rightarrow> (bool \<times> Board) option" where
  "solveNums slv row col [] b = Some (False, b)"
| "solveNums slv row col (num # nums) b =
     (if isValid (map (map nullToZero) b) row col num then
        Option.bind (slv (setCell b row col (Some num)))
          (\<lambda>(ok, b').
             if ok then Some (True, b')
             else solveNums slv row col nums (setCell b' row col None))
      else solveNums slv row col nums b)"

lemma solveNums_mono [partial_function_mono]:
  "monotone (fun_ord option_ord) option_ord (\<lambda>slv. solveNums slv row col nums b)"
  by (induction nums arbitrary: b) (auto intro!: partial_function_mono)

partial_function (option) solve :: "Board \<Rightarrow> (bool \<times> Board) option" where
  "solve b =
     (case firstCell (\<lambda>v. v = None) b of
        None \<Rightarrow> Some (True, b)
      | Some (row, col) \<Rightarrow> solveNums solve row col [1, 2, 3, 4, 5, 6, 7, 8, 9] b)"

text \<open>
  \<open>solvePuzzle\<close> returns the solved copy or \<open>null\<close>: \<open>Some (Some b)\<close> or
  \<open>Some None\<close>; the outer \<open>None\<close> is a search that does not return.
\<close>

definition solvePuzzle :: "Board \<Rightarrow> Board option option" where
  "solvePuzzle board =
     (case solve (copyBoard board) of
        None \<Rightarrow> None
      | Some (ok, b) \<Rightarrow> Some (if ok then Some b else None))"

section \<open>The operations on a store of arrays\<close>

text \<open>
  In the source a board is an array of row arrays, and \<open>board[row][col] = v\<close> changes a
  row array in place, for everyone who holds it. To say what an operation does to the
  arrays of its caller, the operations are modelled once more on a store. The store is the
  list of the row arrays allocated so far, the address of a row array is its position in
  that list, and a board is the list of the addresses of its rows; the outer array of a
  board is never assigned to after it is built, so it is a value. \<open>boardOf\<close> reads the
  grid a board holds, \<open>allocBoard\<close> is the allocation of a new board with given rows
  (as \<open>board.map((r) => [...r])\<close> does), \<open>writeCell\<close> is \<open>board[row][col] = v\<close>.
\<close>

type_synonym heap = "cell list list"
type_synonym boardRef = "nat list"

definition boardOf :: "heap \<Rightarrow> boardRef \<Rightarrow> Board" where
  "boardOf h board = map (\<lambda>a. h ! a) board"

definition allocBoard :: "heap \<Rightarrow> Board \<Rightarrow> heap \<times> boardRef" where
  "allocBoard h rows = (h @ rows, [length h..<length h + length rows])"

definition writeCell :: "heap \<Rightarrow> boardRef \<Rightarrow> nat \<Rightarrow> nat \<Rightarrow> cell \<Rightarrow> heap" where
  "writeCell h board row col v = h[board ! row := (h ! (board ! row))[col := v]]"

text \<open>
  \<open>solvePuzzle\<close> on the store: \<open>b\<close> is the copy that the inner function \<open>solve\<close>
  writes to, \<open>filled\<close> the board that each round of the loop allocates for the test.
  The result is the returned board (or \<open>null\<close>) and the store at the return.
\<close>

fun solveNumsH :: "(heap \<Rightarrow> (bool \<times> heap) option) \<Rightarrow> boardRef \<Rightarrow> nat \<Rightarrow> nat \<Rightarrow> nat list \<Rightarrow> heap
    \<Rightarrow> (bool \<times> heap) option" where
  "solveNumsH slv b row col [] h = Some (False, h)"
| "solveNumsH slv b row col (num # nums) h =
     (case allocBoard h (map (map nullToZero) (boardOf h b)) of
        (h1, filled) \<Rightarrow>
          if isValid (boardOf h1 filled) row col num then
            Option.bind (slv (writeCell h1 b row col (Some num)))
              (\<lambda>(ok, h2).
                 if ok then Some (True, h2)
                 else solveNumsH slv b row col nums (writeCell h2 b row col None))
          else solveNumsH slv b row col nums h1)"

lemma solveNumsH_mono [partial_function_mono]:
  "monotone (fun_ord option_ord) option_ord
     (\<lambda>slv. solveNumsH (\<lambda>h. slv (b', h)) b row col nums h)"
proof (induction nums arbitrary: h)
  case Nil
  show ?case by (simp add: option.const_mono)
next
  case (Cons num nums)
  obtain h1 filled where a: "allocBoard h (map (map nullToZero) (boardOf h b)) = (h1, filled)"
    by (cases "allocBoard h (map (map nullToZero) (boardOf h b))")
  show ?case
    unfolding solveNumsH.simps a prod.case
    by (auto intro!: partial_function_mono Cons.IH)
qed

partial_function (option) solveH :: "boardRef \<Rightarrow> heap \<Rightarrow> (bool \<times> heap) option" where
  "solveH b h =
     (case firstCell (\<lambda>v. v = None) (boardOf h b) of
        None \<Rightarrow> Some (True, h)
      | Some (row, col) \<Rightarrow> solveNumsH (solveH b) b row col [1, 2, 3, 4, 5, 6, 7, 8, 9] h)"

definition solvePuzzleH :: "boardRef \<Rightarrow> heap \<Rightarrow> (boardRef option \<times> heap) option" where
  "solvePuzzleH board h =
     (case allocBoard h (boardOf h board) of
        (h1, b) \<Rightarrow>
          (case solveH b h1 of
             None \<Rightarrow> None
           | Some (ok, h2) \<Rightarrow> Some (if ok then Some b else None, h2)))"

text \<open>
  \<open>countSolutions\<close> on the store: each round allocates \<open>filled\<close>, writes the digit
  into it and allocates the board of the recursive call.
\<close>

fun countNumsH :: "(boardRef \<Rightarrow> int \<Rightarrow> heap \<Rightarrow> (int \<times> heap) option) \<Rightarrow> boardRef \<Rightarrow> nat \<Rightarrow> nat
    \<Rightarrow> int \<Rightarrow> nat list \<Rightarrow> int \<Rightarrow> heap \<Rightarrow> (int \<times> heap) option" where
  "countNumsH cnt board row col limit [] count h = Some (count, h)"
| "countNumsH cnt board row col limit (num # nums) count h =
     (case allocBoard h (boardOf h board) of
        (h1, filled) \<Rightarrow>
          if isValid (boardOf h1 filled) row col num then
            (let h2 = writeCell h1 filled row col (Some num)
             in case allocBoard h2 (map (map zeroToNull) (boardOf h2 filled)) of
                  (h3, child) \<Rightarrow>
                    Option.bind (cnt child (limit - count) h3)
                      (\<lambda>(k, h4).
                         let count' = count + k
                         in if count' \<ge> limit then Some (count', h4)
                            else countNumsH cnt board row col limit nums count' h4))
          else countNumsH cnt board row col limit nums count h1)"

lemma countNumsH_mono [partial_function_mono]:
  "monotone (fun_ord option_ord) option_ord
     (\<lambda>cnt. countNumsH (\<lambda>b l h. cnt ((b, l), h)) board row col limit nums count h)"
proof (induction nums arbitrary: count h)
  case Nil
  show ?case by (simp add: option.const_mono)
next
  case (Cons num nums)
  obtain h1 filled where a: "allocBoard h (boardOf h board) = (h1, filled)"
    by (cases "allocBoard h (boardOf h board)")
  obtain h3 child where c: "allocBoard (writeCell h1 filled row col (Some num))
      (map (map zeroToNull) (boardOf (writeCell h1 filled row col (Some num)) filled)) = (h3, child)"
    by (cases "allocBoard (writeCell h1 filled row col (Some num))
      (map (map zeroToNull) (boardOf (writeCell h1 filled row col (Some num)) filled))")
  show ?case
    unfolding countNumsH.simps a prod.case Let_def c
    by (auto intro!: partial_function_mono Cons.IH)
qed

partial_function (option) countSolutionsH :: "boardRef \<Rightarrow> int \<Rightarrow> heap \<Rightarrow> (int \<times> heap) option" where
  "countSolutionsH board limit h =
     (case firstCell (\<lambda>v. v = None) (boardOf h board) of
        None \<Rightarrow> Some (1, h)
      | Some (row, col) \<Rightarrow>
          countNumsH countSolutionsH board row col limit [1, 2, 3, 4, 5, 6, 7, 8, 9] 0 h)"

text \<open>\<open>getConflicts\<close> on the store only reads the cells of its board.\<close>

definition getConflictsH :: "boardRef \<Rightarrow> heap \<Rightarrow> string set \<times> heap" where
  "getConflictsH board h = (getConflicts (boardOf h board), h)"

section \<open>Specification vocabulary\<close>

text \<open>
  A well-formed grid has nine rows of nine cells, each empty (\<open>null\<close>) or a digit from
  1 to 9.
\<close>

definition cellAt :: "Board \<Rightarrow> nat \<times> nat \<Rightarrow> cell" where
  "cellAt board p = board ! fst p ! snd p"

definition dims9 :: "Board \<Rightarrow> bool" where
  "dims9 board \<longleftrightarrow> length board = 9 \<and> (\<forall>row \<in> set board. length row = 9)"

definition wfBoard :: "Board \<Rightarrow> bool" where
  "wfBoard board \<longleftrightarrow>
     dims9 board \<and>
     (\<forall>p \<in> set allCells. case cellAt board p of None \<Rightarrow> True | Some n \<Rightarrow> 1 \<le> n \<and> n \<le> 9)"

text \<open>Two coordinates share a unit when they lie in one row, one column or one box.\<close>

definition sameUnit :: "nat \<times> nat \<Rightarrow> nat \<times> nat \<Rightarrow> bool" where
  "sameUnit p q \<longleftrightarrow>
     fst p = fst q \<or> snd p = snd q \<or> (fst p div 3 = fst q div 3 \<and> snd p div 3 = snd q div 3)"

text \<open>
  Two cells clash when they share a unit and hold the same value; a cell is in conflict
  when it is filled and clashes with another cell of the grid.
\<close>

definition clash :: "Board \<Rightarrow> nat \<times> nat \<Rightarrow> nat \<times> nat \<Rightarrow> bool" where
  "clash board p q \<longleftrightarrow>
     p \<noteq> q \<and> sameUnit p q \<and> cellAt board p \<noteq> None \<and> cellAt board q = cellAt board p"

definition conflictAt :: "Board \<Rightarrow> nat \<times> nat \<Rightarrow> bool" where
  "conflictAt board p \<longleftrightarrow> (\<exists>q \<in> set allCells. clash board p q)"

text \<open>
  The 27 units, and a Solution: a grid in which every row, every column and every box is
  a permutation of the digits 1 to 9.
\<close>

definition rowCells :: "nat \<Rightarrow> (nat \<times> nat) list" where
  "rowCells r = map (\<lambda>c. (r, c)) [0..<9]"

definition colCells :: "nat \<Rightarrow> (nat \<times> nat) list" where
  "colCells c = map (\<lambda>r. (r, c)) [0..<9]"

definition boxCells :: "nat \<Rightarrow> (nat \<times> nat) list" where
  "boxCells k =
     concat (map (\<lambda>r. map (\<lambda>c. (r, c)) [k mod 3 * 3..<k mod 3 * 3 + 3])
               [k div 3 * 3..<k div 3 * 3 + 3])"

definition allUnits :: "(nat \<times> nat) list list" where
  "allUnits = map rowCells [0..<9] @ map colCells [0..<9] @ map boxCells [0..<9]"

definition isSolution :: "Board \<Rightarrow> bool" where
  "isSolution s \<longleftrightarrow>
     dims9 s \<and>
     (\<forall>u \<in> set allUnits.
        distinct (map (cellAt s) u) \<and> set (map (cellAt s) u) = set (map Some [1..<10]))"


text \<open>
  A completion of a grid is a Solution that agrees with the grid at every filled cell. A
  grid is free of clashes when no unit holds a value twice among its filled cells. The
  clue count is the number of cells that are not \<open>null\<close>.
\<close>

definition agreesWith :: "Board \<Rightarrow> Board \<Rightarrow> bool" where
  "agreesWith board s \<longleftrightarrow>
     (\<forall>p \<in> set allCells. cellAt board p \<noteq> None \<longrightarrow> cellAt s p = cellAt board p)"

definition completions :: "Board \<Rightarrow> Board set" where
  "completions board = {s. isSolution s \<and> agreesWith board s}"

definition noClash :: "Board \<Rightarrow> bool" where
  "noClash board \<longleftrightarrow> (\<forall>p \<in> set allCells. \<forall>q \<in> set allCells. \<not> clash board p q)"

definition clueCount :: "Board \<Rightarrow> nat" where
  "clueCount board = length (filter (\<lambda>v. v \<noteq> None) (concat board))"

text \<open>
  What the three searches explore. They place digits at the empty cells only and test each
  digit against the cells already filled, so a grid they can reach from \<open>board\<close> has a
  digit in every cell, keeps the filled cells of \<open>board\<close>, and has two different values
  at any two cells of a unit of which at least one was empty in \<open>board\<close>. Two filled
  cells of \<open>board\<close> are never compared with each other.
\<close>

definition fullBoard :: "Board \<Rightarrow> bool" where
  "fullBoard s \<longleftrightarrow>
     dims9 s \<and>
     (\<forall>p \<in> set allCells. case cellAt s p of None \<Rightarrow> False | Some n \<Rightarrow> 1 \<le> n \<and> n \<le> 9)"

definition fills :: "Board \<Rightarrow> Board set" where
  "fills board =
     {s. fullBoard s \<and>
         (\<forall>p \<in> set allCells. \<not> isEmptyCell (cellAt board p) \<longrightarrow> cellAt s p = cellAt board p) \<and>
         (\<forall>p \<in> set allCells. \<forall>q \<in> set allCells.
            p \<noteq> q \<and> sameUnit p q \<and> (isEmptyCell (cellAt board p) \<or> isEmptyCell (cellAt board q))
            \<longrightarrow> cellAt s p \<noteq> cellAt s q)}"

text \<open>
  The boards the searches work on: nine rows of nine cells, each \<open>null\<close> or a number
  from 0 to 9. Well-formed grids and the filler's boards are of this kind.
\<close>

definition okBoard :: "Board \<Rightarrow> bool" where
  "okBoard board \<longleftrightarrow>
     dims9 board \<and>
     (\<forall>p \<in> set allCells. case cellAt board p of None \<Rightarrow> True | Some n \<Rightarrow> n \<le> 9)"

section \<open>Example grids\<close>

definition exampleSolution :: Board where
  "exampleSolution =
     map (\<lambda>r. map (\<lambda>c. Some ((3 * (r mod 3) + r div 3 + c) mod 9 + 1)) [0..<9]) [0..<9]"

definition blankBoard :: Board where
  "blankBoard = replicate 9 (replicate 9 None)"

definition twoFives :: Board where
  "twoFives = setCell (setCell blankBoard 0 0 (Some 5)) 0 4 (Some 5)"

definition allOnes :: Board where
  "allOnes = replicate 9 (replicate 9 (Some 1))"

definition onePuzzle :: Board where
  "onePuzzle = setCell exampleSolution 0 0 None"

definition twoThrees :: Board where
  "twoThrees = setCell (setCell blankBoard 0 2 (Some 3)) 0 6 (Some 3)"

text \<open>
  The filler's boards hold a number from 0 to 9 in every cell, \<open>0\<close> for an empty one;
  it starts from the grid of zeros. A puzzle lies within a solution when each of its cells
  is empty or holds the solution's value.
\<close>

definition zeroBoard :: "Board \<Rightarrow> bool" where
  "zeroBoard board \<longleftrightarrow>
     dims9 board \<and>
     (\<forall>p \<in> set allCells. case cellAt board p of None \<Rightarrow> False | Some n \<Rightarrow> n \<le> 9)"

definition emptyGrid :: Board where
  "emptyGrid = replicate 9 (replicate 9 (Some 0))"

definition within :: "Board \<Rightarrow> Board \<Rightarrow> bool" where
  "within puzzle solution \<longleftrightarrow>
     dims9 puzzle \<and>
     (\<forall>p \<in> set allCells. cellAt puzzle p = None \<or> cellAt puzzle p = cellAt solution p)"

section \<open>The conflict detector: proofs\<close>




lemma fold_cond_insert:
  "fold (\<lambda>x S. if Q x then insert (k x) S else S) xs S0 = S0 \<union> k ` {x \<in> set xs. Q x}"
  by (induction xs arbitrary: S0) auto

lemma box_index:
  assumes "r < 9" "c < (9::nat)"
  shows "r div 3 * 3 + c div 3 < 9"
    and "(r div 3 * 3 + c div 3) div 3 = r div 3"
    and "(r div 3 * 3 + c div 3) mod 3 = c div 3"
proof -
  have a: "r div 3 < 3" "c div 3 < 3" using assms by auto
  then show "r div 3 * 3 + c div 3 < 9" by linarith
  show "(r div 3 * 3 + c div 3) div 3 = r div 3" using a(2) by simp
  show "(r div 3 * 3 + c div 3) mod 3 = c div 3" using a(2) by simp
qed

lemma in_box: "(a * 3 \<le> r' \<and> r' < a * 3 + 3) \<longleftrightarrow> r' div 3 = (a::nat)"
proof
  assume "a * 3 \<le> r' \<and> r' < a * 3 + 3"
  then show "r' div 3 = a" by (intro div_nat_eqI) auto
next
  assume "r' div 3 = a"
  then have a: "a = r' div 3" by simp
  have "r' < 3 + r' div 3 * 3" by (rule dividend_less_div_times) simp
  then show "a * 3 \<le> r' \<and> r' < a * 3 + 3" unfolding a by simp
qed

lemma box_lt9:
  assumes "r' div 3 = r div 3" "r < 9"
  shows "r' < (9::nat)"
proof -
  have "r' < 3 + r' div 3 * 3" by (rule dividend_less_div_times) simp
  moreover have "r div 3 < 3" using assms(2) by simp
  ultimately show ?thesis using assms(1) by linarith
qed

lemma isValidPlacement_iff:
  assumes "r < 9" "c < 9"
  shows "isValidPlacement board r c v \<longleftrightarrow>
     \<not> (\<exists>q \<in> set allCells. q \<noteq> (r, c) \<and> sameUnit (r, c) q \<and> cellAt board q = Some v)"
proof -
  have "isValidPlacement board r c v \<longleftrightarrow>
      (\<forall>c'<9. \<not> (c' \<noteq> c \<and> board ! r ! c' = Some v)) \<and>
      (\<forall>r'<9. \<not> (r' \<noteq> r \<and> board ! r' ! c = Some v)) \<and>
      (\<forall>r' c'. r' div 3 = r div 3 \<and> c' div 3 = c div 3 \<longrightarrow>
          \<not> ((r' \<noteq> r \<or> c' \<noteq> c) \<and> board ! r' ! c' = Some v))"
    unfolding isValidPlacement_def Let_def by (auto simp: Ball_def in_box)
  also have "\<dots> \<longleftrightarrow> \<not> (\<exists>r'<9. \<exists>c'<9. (r', c') \<noteq> (r, c) \<and> sameUnit (r, c) (r', c') \<and> board ! r' ! c' = Some v)"
    (is "?L \<longleftrightarrow> \<not> ?R")
  proof
    assume L: ?L
    show "\<not> ?R"
    proof
      assume ?R
      then obtain r' c' where *: "r' < 9" "c' < 9" "(r', c') \<noteq> (r, c)"
        "sameUnit (r, c) (r', c')" "board ! r' ! c' = Some v" by blast
      from *(4) consider "r = r'" | "c = c'" | "r' div 3 = r div 3 \<and> c' div 3 = c div 3"
        by (auto simp: sameUnit_def)
      then show False
      proof cases
        case 1 with L *(1,2,3,5) show False by auto
      next
        case 2 with L *(1,2,3,5) show False by auto
      next
        case 3 with L *(3,5) show False by blast
      qed
    qed
  next
    assume nR: "\<not> ?R"
    have a: "\<forall>c'<9. \<not> (c' \<noteq> c \<and> board ! r ! c' = Some v)"
      using nR assms(1) by (auto simp: sameUnit_def)
    have b: "\<forall>r'<9. \<not> (r' \<noteq> r \<and> board ! r' ! c = Some v)"
      using nR assms(2) by (auto simp: sameUnit_def)
    have c: "\<not> ((r' \<noteq> r \<or> c' \<noteq> c) \<and> board ! r' ! c' = Some v)"
      if "r' div 3 = r div 3 \<and> c' div 3 = c div 3" for r' c'
    proof -
      from that assms have "r' < 9" "c' < 9" by (auto dest: box_lt9)
      moreover have "sameUnit (r, c) (r', c')" using that by (simp add: sameUnit_def)
      ultimately show ?thesis using nR by auto
    qed
    from a b c show ?L by blast
  qed
  finally have main: "isValidPlacement board r c v \<longleftrightarrow>
      \<not> (\<exists>r'<9. \<exists>c'<9. (r', c') \<noteq> (r, c) \<and> sameUnit (r, c) (r', c') \<and> board ! r' ! c' = Some v)" .
  have "(\<exists>q \<in> set allCells. q \<noteq> (r, c) \<and> sameUnit (r, c) q \<and> cellAt board q = Some v) \<longleftrightarrow>
      (\<exists>r'<9. \<exists>c'<9. (r', c') \<noteq> (r, c) \<and> sameUnit (r, c) (r', c') \<and> board ! r' ! c' = Some v)"
    unfolding set_allCells cellAt_def by fastforce
  with main show ?thesis by simp
qed

lemma getConflicts_char:
  "getConflicts board = (\<lambda>(r, c). coordKey r c) ` {p \<in> set allCells. conflictAt board p}"
proof -
  let ?Q = "\<lambda>(r, c). case board ! r ! c of None \<Rightarrow> False | Some val \<Rightarrow> \<not> isValidPlacement board r c val"
  have "getConflicts board = fold (\<lambda>x S. if ?Q x then insert ((\<lambda>(r, c). coordKey r c) x) S else S) allCells {}"
    unfolding getConflicts_def
    by (rule arg_cong[where f = "\<lambda>f. fold f allCells {}"]) (auto simp: fun_eq_iff split: option.splits)
  also have "\<dots> = (\<lambda>(r, c). coordKey r c) ` {p \<in> set allCells. ?Q p}"
    by (simp add: fold_cond_insert)
  also have "{p \<in> set allCells. ?Q p} = {p \<in> set allCells. conflictAt board p}"
  proof -
    have "?Q p \<longleftrightarrow> conflictAt board p" if "p \<in> set allCells" for p
    proof -
      obtain r c where p: "p = (r, c)" by (cases p)
      with that have rc: "r < 9" "c < 9" by (auto simp: set_allCells)
      have "?Q p \<longleftrightarrow> (\<exists>v. cellAt board p = Some v \<and> \<not> isValidPlacement board r c v)"
        unfolding p by (auto simp: cellAt_def split: option.splits)
      also have "\<dots> \<longleftrightarrow> (\<exists>v. cellAt board p = Some v \<and>
          (\<exists>q \<in> set allCells. q \<noteq> p \<and> sameUnit p q \<and> cellAt board q = Some v))"
        unfolding isValidPlacement_iff[OF rc] p by blast
      also have "\<dots> \<longleftrightarrow> (\<exists>q \<in> set allCells. clash board p q)"
        unfolding clash_def by (cases "cellAt board p") auto
      finally show ?thesis by (simp add: conflictAt_def)
    qed
    then show ?thesis by blast
  qed
  finally show ?thesis .
qed

lemma showNat_digit: "n < 10 \<Longrightarrow> showNat n = [char_of (48 + n)]"
  by simp

lemma char_of_digit_inj:
  assumes "n < 10" "m < 10" "char_of (48 + n) = (char_of (48 + m) :: char)"
  shows "n = (m::nat)"
proof -
  have "of_char (char_of (48 + n) :: char) = (of_char (char_of (48 + m) :: char) :: nat)"
    using assms(3) by simp
  then have "(48 + n) mod 256 = (48 + m) mod 256" by (simp only: of_char_of)
  with assms(1,2) show ?thesis by simp
qed

lemma coordKey_inj:
  assumes "r < 9" "c < 9" "r' < 9" "c' < 9" "coordKey r c = coordKey r' c'"
  shows "r = r' \<and> c = c'"
  using assms by (auto simp: coordKey_def showNat_digit dest!: char_of_digit_inj simp del: showNat.simps)


lemma mem_allCells: "p \<in> set allCells \<longleftrightarrow> fst p < 9 \<and> snd p < 9"
  by (cases p) (auto simp: set_allCells)

lemma in_rowCells: "p \<in> set (rowCells r) \<longleftrightarrow> fst p = r \<and> snd p < 9"
  by (cases p) (auto simp: rowCells_def)

lemma in_colCells: "p \<in> set (colCells c) \<longleftrightarrow> snd p = c \<and> fst p < 9"
  by (cases p) (auto simp: colCells_def)

lemma in_boxCells: "p \<in> set (boxCells k) \<longleftrightarrow> fst p div 3 = k div 3 \<and> snd p div 3 = k mod 3"
proof (cases p)
  case (Pair a b)
  have "p \<in> set (boxCells k) \<longleftrightarrow>
      (k div 3 * 3 \<le> a \<and> a < k div 3 * 3 + 3) \<and> (k mod 3 * 3 \<le> b \<and> b < k mod 3 * 3 + 3)"
    unfolding Pair boxCells_def by (auto intro!: bexI[of _ a])
  then show ?thesis unfolding in_box Pair by simp
qed

lemma in_allUnits:
  "u \<in> set allUnits \<longleftrightarrow> (\<exists>k<9. u = rowCells k \<or> u = colCells k \<or> u = boxCells k)"
  by (auto simp: allUnits_def)

lemma in_unit_sameUnit:
  assumes "u \<in> set allUnits" "p \<in> set u" "q \<in> set u"
  shows "sameUnit p q"
  using assms unfolding in_allUnits sameUnit_def
  by (auto simp: in_rowCells in_colCells in_boxCells)

lemma sameUnit_in_unit:
  assumes "p \<in> set allCells" "q \<in> set allCells" "sameUnit p q"
  shows "\<exists>u \<in> set allUnits. p \<in> set u \<and> q \<in> set u"
proof -
  from assms(1,2) have lt: "fst p < 9" "snd p < 9" "fst q < 9" "snd q < 9"
    by (auto simp: mem_allCells)
  from assms(3) consider "fst p = fst q" | "snd p = snd q"
    | "fst p div 3 = fst q div 3 \<and> snd p div 3 = snd q div 3"
    by (auto simp: sameUnit_def)
  then show ?thesis
  proof cases
    case 1
    then have "p \<in> set (rowCells (fst p))" "q \<in> set (rowCells (fst p))"
      using lt by (auto simp: in_rowCells)
    moreover have "rowCells (fst p) \<in> set allUnits" using lt(1) by (auto simp: in_allUnits)
    ultimately show ?thesis by blast
  next
    case 2
    then have "p \<in> set (colCells (snd p))" "q \<in> set (colCells (snd p))"
      using lt by (auto simp: in_colCells)
    moreover have "colCells (snd p) \<in> set allUnits" using lt(2) by (auto simp: in_allUnits)
    ultimately show ?thesis by blast
  next
    case 3
    let ?k = "fst p div 3 * 3 + snd p div 3"
    have k: "?k < 9" "?k div 3 = fst p div 3" "?k mod 3 = snd p div 3"
      using box_index[OF lt(1,2)] by auto
    have "p \<in> set (boxCells ?k)" "q \<in> set (boxCells ?k)"
      using 3 unfolding in_boxCells k by auto
    moreover have "boxCells ?k \<in> set allUnits" using k(1) by (auto simp: in_allUnits)
    ultimately show ?thesis by blast
  qed
qed

lemma isSolution_no_clash:
  assumes "isSolution s" "p \<in> set allCells" "q \<in> set allCells"
  shows "\<not> clash s p q"
proof
  assume c: "clash s p q"
  then have "sameUnit p q" "p \<noteq> q" "cellAt s q = cellAt s p" by (auto simp: clash_def)
  from sameUnit_in_unit[OF assms(2,3) this(1)] obtain u where u: "u \<in> set allUnits" "p \<in> set u" "q \<in> set u"
    by blast
  with assms(1) have "distinct (map (cellAt s) u)" by (auto simp: isSolution_def)
  then have "inj_on (cellAt s) (set u)" by (simp add: distinct_map)
  with u \<open>p \<noteq> q\<close> \<open>cellAt s q = cellAt s p\<close> show False by (auto dest: inj_onD)
qed

section \<open>Boards and cells: proofs\<close>

lemma dims9D:
  assumes "dims9 b"
  shows "length b = 9" and "r < 9 \<Longrightarrow> length (b ! r) = 9"
  using assms by (auto simp: dims9_def)

lemma cellAt_setCell:
  assumes "r < length b" "c < length (b ! r)"
  shows "cellAt (setCell b r c v) q = (if q = (r, c) then v else cellAt b q)"
proof (cases q)
  case (Pair r' c')
  show ?thesis
    unfolding Pair cellAt_def setCell_def using assms by (auto simp: nth_list_update)
qed

lemma cellAt_setCell9:
  assumes "dims9 b" "(r, c) \<in> set allCells"
  shows "cellAt (setCell b r c v) q = (if q = (r, c) then v else cellAt b q)"
  using assms by (intro cellAt_setCell) (auto simp: set_allCells dims9D)

lemma dims9_setCell: "dims9 (setCell b r c v) = dims9 b"
proof (cases "r < length b")
  case True
  have "(\<forall>i<length b. length ((b[r := (b ! r)[c := v]]) ! i) = 9) \<longleftrightarrow> (\<forall>i<length b. length (b ! i) = 9)"
    using True by (auto simp: nth_list_update)
  then show ?thesis
    unfolding dims9_def setCell_def by (simp add: all_set_conv_all_nth)
next
  case False
  then have "length b \<le> r" by simp
  then show ?thesis unfolding setCell_def by (simp only: list_update_beyond)
qed

lemma board_eqI:
  assumes "dims9 a" "dims9 b" "\<And>p. p \<in> set allCells \<Longrightarrow> cellAt a p = cellAt b p"
  shows "a = b"
proof (rule nth_equalityI)
  show "length a = length b" using assms(1,2) by (simp add: dims9D)
next
  fix r assume "r < length a"
  then have r: "r < 9" using assms(1) by (simp add: dims9D)
  show "a ! r = b ! r"
  proof (rule nth_equalityI)
    show "length (a ! r) = length (b ! r)" using assms(1,2) r by (simp add: dims9D)
  next
    fix c assume "c < length (a ! r)"
    then have "c < 9" using assms(1) r by (simp add: dims9D)
    with r assms(3)[of "(r, c)"] show "a ! r ! c = b ! r ! c"
      by (simp add: cellAt_def set_allCells)
  qed
qed

lemma setCell_same:
  assumes "cellAt b (r, c) = v"
  shows "setCell b r c v = b"
  by (simp add: setCell_def cellAt_def assms[symmetric])

lemma setCell_setCell:
  "setCell (setCell b r c v) r c w = setCell b r c w"
  by (cases "r < length b") (simp_all add: setCell_def list_update_beyond)

lemma firstCell_None:
  assumes "dims9 b" "firstCell test b = None" "p \<in> set allCells"
  shows "\<not> test (cellAt b p)"
proof -
  obtain r c where p: "p = (r, c)" by (cases p)
  with assms(3) have "r < 9" "c < 9" by (auto simp: set_allCells)
  with assms(1) have "r < length b" "c < length (b ! r)" by (simp_all add: dims9D)
  with assms(2,3) show ?thesis
    unfolding firstCell_def find_None_iff p cellAt_def by auto
qed

lemma firstCell_Some:
  assumes "firstCell test b = Some (r, c)"
  shows "(r, c) \<in> set allCells" and "test (cellAt b (r, c))"
  using firstCell_SomeD[OF assms] by (auto simp: set_allCells cellAt_def)

lemma sameUnit_refl: "sameUnit p p"
  by (simp add: sameUnit_def)

lemma sameUnit_sym: "sameUnit p q \<Longrightarrow> sameUnit q p"
  by (auto simp: sameUnit_def)

lemma isValid_placement:
  assumes "r < 9" "c < 9"
  shows "isValid b r c num \<longleftrightarrow> isValidPlacement b r c num \<and> cellAt b (r, c) \<noteq> Some num"
proof -
  have 1: "(\<forall>c' \<in> set [0..<9]. b ! r ! c' \<noteq> Some num) \<longleftrightarrow>
      (\<forall>c' \<in> set [0..<9]. \<not> (c' \<noteq> c \<and> b ! r ! c' = Some num)) \<and> b ! r ! c \<noteq> Some num"
    using assms(2) by auto
  have 2: "(\<forall>r' \<in> set [0..<9]. b ! r' ! c \<noteq> Some num) \<longleftrightarrow>
      (\<forall>r' \<in> set [0..<9]. \<not> (r' \<noteq> r \<and> b ! r' ! c = Some num)) \<and> b ! r ! c \<noteq> Some num"
    using assms(1) by auto
  have 3: "(\<forall>r' \<in> set [r div 3 * 3..<r div 3 * 3 + 3]. \<forall>c' \<in> set [c div 3 * 3..<c div 3 * 3 + 3].
         b ! r' ! c' \<noteq> Some num) \<longleftrightarrow>
      (\<forall>r' \<in> set [r div 3 * 3..<r div 3 * 3 + 3]. \<forall>c' \<in> set [c div 3 * 3..<c div 3 * 3 + 3].
         \<not> ((r' \<noteq> r \<or> c' \<noteq> c) \<and> b ! r' ! c' = Some num)) \<and> b ! r ! c \<noteq> Some num"
    by (auto simp: in_box)
  show ?thesis
    unfolding isValid_def isValidPlacement_def Let_def cellAt_def fst_conv snd_conv
    using 1 2 3 by blast
qed

lemma isValid_iff:
  assumes "(r, c) \<in> set allCells"
  shows "isValid b r c num \<longleftrightarrow>
    (\<forall>q \<in> set allCells. sameUnit (r, c) q \<longrightarrow> cellAt b q \<noteq> Some num)"
proof -
  from assms have rc: "r < 9" "c < 9" by (auto simp: set_allCells)
  have "isValid b r c num \<longleftrightarrow>
      \<not> (\<exists>q \<in> set allCells. q \<noteq> (r, c) \<and> sameUnit (r, c) q \<and> cellAt b q = Some num) \<and>
      cellAt b (r, c) \<noteq> Some num"
    by (simp add: isValid_placement[OF rc] isValidPlacement_iff[OF rc])
  also have "\<dots> \<longleftrightarrow> (\<forall>q \<in> set allCells. sameUnit (r, c) q \<longrightarrow> cellAt b q \<noteq> Some num)"
  proof -
    define p where "p = (r, c)"
    have "p \<in> set allCells" "sameUnit p p" using assms by (simp_all add: p_def sameUnit_refl)
    then show ?thesis unfolding p_def[symmetric] by auto
  qed
  finally show ?thesis .
qed

section \<open>The search space: proofs\<close>

lemma okBoardD:
  assumes "okBoard b"
  shows "dims9 b" and "p \<in> set allCells \<Longrightarrow> cellAt b p = None \<or> (\<exists>n\<le>9. cellAt b p = Some n)"
proof -
  show "dims9 b" using assms by (simp add: okBoard_def)
  assume "p \<in> set allCells"
  with assms have "case cellAt b p of None \<Rightarrow> True | Some n \<Rightarrow> n \<le> 9"
    unfolding okBoard_def by blast
  then show "cellAt b p = None \<or> (\<exists>n\<le>9. cellAt b p = Some n)"
    by (cases "cellAt b p") auto
qed

lemma fullBoardD:
  assumes "fullBoard s"
  shows "dims9 s" and "p \<in> set allCells \<Longrightarrow> \<exists>n. cellAt s p = Some n \<and> 1 \<le> n \<and> n \<le> 9"
proof -
  show "dims9 s" using assms by (simp add: fullBoard_def)
  assume "p \<in> set allCells"
  with assms have "case cellAt s p of None \<Rightarrow> False | Some n \<Rightarrow> 1 \<le> n \<and> n \<le> 9"
    unfolding fullBoard_def by blast
  then show "\<exists>n. cellAt s p = Some n \<and> 1 \<le> n \<and> n \<le> 9"
    by (cases "cellAt s p") auto
qed

lemma fullBoardI:
  assumes "dims9 s" "\<And>p. p \<in> set allCells \<Longrightarrow> \<exists>n. cellAt s p = Some n \<and> 1 \<le> n \<and> n \<le> 9"
  shows "fullBoard s"
  unfolding fullBoard_def using assms by (fastforce split: option.splits)

lemma fills_mem:
  "s \<in> fills b \<longleftrightarrow>
     fullBoard s \<and>
     (\<forall>p \<in> set allCells. \<not> isEmptyCell (cellAt b p) \<longrightarrow> cellAt s p = cellAt b p) \<and>
     (\<forall>p \<in> set allCells. \<forall>q \<in> set allCells.
        p \<noteq> q \<and> sameUnit p q \<and> (isEmptyCell (cellAt b p) \<or> isEmptyCell (cellAt b q))
        \<longrightarrow> cellAt s p \<noteq> cellAt s q)"
  by (simp add: fills_def)

lemma fills_full:
  assumes "okBoard b" "\<And>p. p \<in> set allCells \<Longrightarrow> \<not> isEmptyCell (cellAt b p)"
  shows "fills b = {b}"
proof -
  have fb: "fullBoard b"
  proof (rule fullBoardI)
    show "dims9 b" using assms(1) by (rule okBoardD)
  next
    fix p assume p: "p \<in> set allCells"
    from okBoardD(2)[OF assms(1) p] assms(2)[OF p]
    show "\<exists>n. cellAt b p = Some n \<and> 1 \<le> n \<and> n \<le> 9"
      by (auto simp: isEmptyCell_def)
  qed
  have "b \<in> fills b" unfolding fills_mem using fb assms(2) by blast
  moreover have "s = b" if "s \<in> fills b" for s
  proof (rule board_eqI)
    show "dims9 s" using that by (simp add: fills_mem fullBoardD)
    show "dims9 b" using assms(1) by (rule okBoardD)
    fix p assume "p \<in> set allCells"
    then show "cellAt s p = cellAt b p" using that assms(2) by (simp add: fills_mem)
  qed
  ultimately show ?thesis by blast
qed

lemma fills_place:
  assumes ok: "okBoard b" and p: "(r, c) \<in> set allCells" and e: "isEmptyCell (cellAt b (r, c))"
    and num: "num \<noteq> 0"
    and valid: "\<And>q. q \<in> set allCells \<Longrightarrow> sameUnit (r, c) q \<Longrightarrow> cellAt b q \<noteq> Some num"
  shows "fills (setCell b r c (Some num)) = {s \<in> fills b. cellAt s (r, c) = Some num}"
proof -
  define p where "p = (r, c)"
  define b' where "b' = setCell b r c (Some num)"
  have cb': "cellAt b' q = (if q = p then Some num else cellAt b q)" for q
    unfolding b'_def p_def using cellAt_setCell9[OF okBoardD(1)[OF ok] p] by simp
  have ne: "\<not> isEmptyCell (Some num)" using num by (simp add: isEmptyCell_def)
  have pin: "p \<in> set allCells" and pe: "isEmptyCell (cellAt b p)"
    using p e by (simp_all add: p_def)
  have valid': "cellAt b q \<noteq> Some num" if "q \<in> set allCells" "sameUnit p q" for q
    using valid that by (simp add: p_def)
  have emp': "isEmptyCell (cellAt b' q) \<longleftrightarrow> q \<noteq> p \<and> isEmptyCell (cellAt b q)" for q
    using cb' ne by auto
  have "fills b' = {s \<in> fills b. cellAt s p = Some num}"
  proof (intro set_eqI iffI)
    fix s assume s: "s \<in> fills b'"
    then have full: "fullBoard s"
      and agree': "\<And>q. q \<in> set allCells \<Longrightarrow> \<not> isEmptyCell (cellAt b' q) \<Longrightarrow> cellAt s q = cellAt b' q"
      and diff': "\<And>x y. x \<in> set allCells \<Longrightarrow> y \<in> set allCells \<Longrightarrow> x \<noteq> y \<Longrightarrow> sameUnit x y \<Longrightarrow>
          isEmptyCell (cellAt b' x) \<or> isEmptyCell (cellAt b' y) \<Longrightarrow> cellAt s x \<noteq> cellAt s y"
      unfolding fills_mem by blast+
    have sp: "cellAt s p = Some num" using agree'[OF pin] cb' ne by simp
    have agree: "cellAt s q = cellAt b q" if "q \<in> set allCells" "\<not> isEmptyCell (cellAt b q)" for q
    proof -
      have "q \<noteq> p" using that pe by auto
      then show ?thesis using agree'[OF that(1)] that(2) cb' by simp
    qed
    have key: "cellAt s p \<noteq> cellAt s y" if "y \<in> set allCells" "y \<noteq> p" "sameUnit p y" for y
    proof (cases "isEmptyCell (cellAt b y)")
      case True
      then have "isEmptyCell (cellAt b' y)" using emp' that by simp
      then show ?thesis using diff'[OF pin that(1)] that by auto
    next
      case False
      then have "cellAt s y = cellAt b y" using agree that by simp
      moreover have "cellAt b y \<noteq> Some num" using valid' that by simp
      ultimately show ?thesis using sp by simp
    qed
    have diff: "cellAt s x \<noteq> cellAt s y"
      if xy: "x \<in> set allCells" "y \<in> set allCells" "x \<noteq> y" "sameUnit x y"
        "isEmptyCell (cellAt b x) \<or> isEmptyCell (cellAt b y)" for x y
    proof (cases "x = p")
      case True
      then show ?thesis using key[of y] xy by auto
    next
      case xp: False
      show ?thesis
      proof (cases "y = p")
        case True
        have "cellAt s p \<noteq> cellAt s x" using key[of x] xy(1) xp sameUnit_sym[OF xy(4)] True by simp
        then show ?thesis using True by simp
      next
        case False
        then have "isEmptyCell (cellAt b' x) \<or> isEmptyCell (cellAt b' y)"
          using xy(5) xp emp' by simp
        then show ?thesis using diff'[OF xy(1,2,3,4)] by simp
      qed
    qed
    have "s \<in> fills b" unfolding fills_mem using full agree diff by blast
    then show "s \<in> {s \<in> fills b. cellAt s p = Some num}" using sp by simp
  next
    fix s assume "s \<in> {s \<in> fills b. cellAt s p = Some num}"
    then have sp: "cellAt s p = Some num" and full: "fullBoard s"
      and agree: "\<And>q. q \<in> set allCells \<Longrightarrow> \<not> isEmptyCell (cellAt b q) \<Longrightarrow> cellAt s q = cellAt b q"
      and diff: "\<And>x y. x \<in> set allCells \<Longrightarrow> y \<in> set allCells \<Longrightarrow> x \<noteq> y \<Longrightarrow> sameUnit x y \<Longrightarrow>
          isEmptyCell (cellAt b x) \<or> isEmptyCell (cellAt b y) \<Longrightarrow> cellAt s x \<noteq> cellAt s y"
      unfolding fills_mem by blast+
    have a: "cellAt s q = cellAt b' q" if "q \<in> set allCells" "\<not> isEmptyCell (cellAt b' q)" for q
    proof (cases "q = p")
      case True then show ?thesis using sp cb' by simp
    next
      case False
      then show ?thesis using agree[OF that(1)] that(2) emp' cb' by simp
    qed
    have d: "cellAt s x \<noteq> cellAt s y"
      if "x \<in> set allCells" "y \<in> set allCells" "x \<noteq> y" "sameUnit x y"
        "isEmptyCell (cellAt b' x) \<or> isEmptyCell (cellAt b' y)" for x y
    proof -
      from that(5) have "isEmptyCell (cellAt b x) \<or> isEmptyCell (cellAt b y)" using emp' by auto
      then show ?thesis using diff[OF that(1,2,3,4)] by simp
    qed
    show "s \<in> fills b'" unfolding fills_mem using full a d by blast
  qed
  then show ?thesis by (simp add: b'_def p_def)
qed

lemma fills_blocked:
  assumes p: "p \<in> set allCells" and e: "isEmptyCell (cellAt b p)" and num: "num \<noteq> 0"
    and q: "q \<in> set allCells" "sameUnit p q" "cellAt b q = Some num"
  shows "{s \<in> fills b. cellAt s p = Some num} = {}"
proof -
  have False if "s \<in> fills b" "cellAt s p = Some num" for s
  proof -
    have qne: "\<not> isEmptyCell (cellAt b q)" using q(3) num by (simp add: isEmptyCell_def)
    then have "p \<noteq> q" using e by auto
    moreover have "cellAt s q = Some num" using that(1) q(1,3) qne by (simp add: fills_mem)
    ultimately show False using that p q(1,2) e unfolding fills_mem by force
  qed
  then show ?thesis by blast
qed

section \<open>Counting: proofs\<close>

lemma cellAt_map:
  assumes "dims9 b" "p \<in> set allCells"
  shows "cellAt (map (map f) b) p = f (cellAt b p)"
  using assms by (cases p) (auto simp: cellAt_def set_allCells dims9D)

lemma dims9_map: "dims9 (map (map f) b) = dims9 b"
  by (auto simp: dims9_def)

lemma wfBoardD:
  assumes "wfBoard b"
  shows "dims9 b"
    and "p \<in> set allCells \<Longrightarrow> cellAt b p = None \<or> (\<exists>n. cellAt b p = Some n \<and> 1 \<le> n \<and> n \<le> 9)"
proof -
  show "dims9 b" using assms by (simp add: wfBoard_def)
  assume "p \<in> set allCells"
  with assms have "case cellAt b p of None \<Rightarrow> True | Some n \<Rightarrow> 1 \<le> n \<and> n \<le> 9"
    unfolding wfBoard_def by blast
  then show "cellAt b p = None \<or> (\<exists>n. cellAt b p = Some n \<and> 1 \<le> n \<and> n \<le> 9)"
    by (cases "cellAt b p") auto
qed

lemma wfBoardI:
  assumes "dims9 b"
    "\<And>p. p \<in> set allCells \<Longrightarrow> cellAt b p = None \<or> (\<exists>n. cellAt b p = Some n \<and> 1 \<le> n \<and> n \<le> 9)"
  shows "wfBoard b"
  unfolding wfBoard_def using assms by (fastforce split: option.splits)

lemma wfBoard_ok: "wfBoard b \<Longrightarrow> okBoard b"
  unfolding wfBoard_def okBoard_def by (fastforce split: option.splits)

lemma wfBoard_empty_iff:
  assumes "wfBoard b" "p \<in> set allCells"
  shows "isEmptyCell (cellAt b p) \<longleftrightarrow> cellAt b p = None"
  using wfBoardD(2)[OF assms] by (auto simp: isEmptyCell_def)

lemma wfBoard_setCell:
  assumes "wfBoard b" "(r, c) \<in> set allCells" "1 \<le> num" "num \<le> 9"
  shows "wfBoard (setCell b r c (Some num))"
proof (rule wfBoardI)
  show "dims9 (setCell b r c (Some num))" using assms(1) by (simp add: dims9_setCell wfBoardD)
next
  fix p assume "p \<in> set allCells"
  then show "cellAt (setCell b r c (Some num)) p = None \<or>
      (\<exists>n. cellAt (setCell b r c (Some num)) p = Some n \<and> 1 \<le> n \<and> n \<le> 9)"
    using wfBoardD(2)[OF assms(1), of p] assms(3,4)
    by (simp add: cellAt_setCell9[OF wfBoardD(1)[OF assms(1)] assms(2)])
qed

lemma wfBoard_zeroToNull:
  assumes "wfBoard b"
  shows "map (map zeroToNull) b = b"
proof (rule board_eqI)
  show "dims9 (map (map zeroToNull) b)" using assms by (simp add: dims9_map wfBoardD)
  show "dims9 b" using assms by (rule wfBoardD)
  fix p assume p: "p \<in> set allCells"
  show "cellAt (map (map zeroToNull) b) p = cellAt b p"
    using wfBoardD(2)[OF assms p]
    by (auto simp: cellAt_map[OF wfBoardD(1)[OF assms] p] zeroToNull_def)
qed

lemma finite_fullBoards: "finite {s. fullBoard s}"
proof -
  let ?R = "{row. set row \<subseteq> Some ` {1..9::nat} \<and> length row = 9}"
  have fR: "finite ?R" by (rule finite_lists_length_eq) simp
  have "finite {s. set s \<subseteq> ?R \<and> length s = 9}" using fR by (rule finite_lists_length_eq)
  moreover have "{s. fullBoard s} \<subseteq> {s. set s \<subseteq> ?R \<and> length s = 9}"
  proof
    fix s assume "s \<in> {s. fullBoard s}"
    then have fs: "fullBoard s" by simp
    have "row \<in> ?R" if "row \<in> set s" for row
    proof -
      from that obtain r where r: "r < length s" "row = s ! r" by (auto simp: in_set_conv_nth)
      then have r9: "r < 9" using fullBoardD(1)[OF fs] by (simp add: dims9D)
      then have len: "length row = 9" using fullBoardD(1)[OF fs] r(2) by (simp add: dims9D)
      have "v \<in> Some ` {1..9}" if "v \<in> set row" for v
      proof -
        from that len obtain c where c: "c < 9" "v = row ! c" by (auto simp: in_set_conv_nth)
        then have "v = cellAt s (r, c)" using r(2) by (simp add: cellAt_def)
        moreover have "(r, c) \<in> set allCells" using r9 c(1) by (simp add: set_allCells)
        ultimately show ?thesis using fullBoardD(2)[OF fs, of "(r, c)"] by auto
      qed
      with len show ?thesis by blast
    qed
    then show "s \<in> {s. set s \<subseteq> ?R \<and> length s = 9}"
      using fullBoardD(1)[OF fs] by (auto simp: dims9D)
  qed
  ultimately show ?thesis by (rule rev_finite_subset)
qed

lemma finite_fills: "finite (fills b)"
  by (rule finite_subset[OF _ finite_fullBoards]) (auto simp: fills_mem)

lemma card_fills_split:
  assumes "p \<in> set allCells"
  shows "card (fills b) = (\<Sum>num\<leftarrow>[1, 2, 3, 4, 5, 6, 7, 8, 9]. card {s \<in> fills b. cellAt s p = Some num})"
proof -
  let ?L = "[1, 2, 3, 4, 5, 6, 7, 8, 9::nat]"
  let ?A = "\<lambda>num. {s \<in> fills b. cellAt s p = Some num}"
  have "fills b = (\<Union>num \<in> set ?L. ?A num)"
  proof (intro set_eqI iffI)
    fix s assume s: "s \<in> fills b"
    then have "fullBoard s" by (simp add: fills_mem)
    from fullBoardD(2)[OF this assms] obtain n where n: "cellAt s p = Some n" "1 \<le> n" "n \<le> 9"
      by blast
    then have "n \<in> set ?L" by (simp) arith
    with s n(1) show "s \<in> (\<Union>num \<in> set ?L. ?A num)" by blast
  qed auto
  then have "card (fills b) = card (\<Union>num \<in> set ?L. ?A num)" by simp
  also have "\<dots> = (\<Sum>num \<in> set ?L. card (?A num))"
  proof (rule card_UN_disjoint)
    show "finite (set ?L)" by simp
    show "\<forall>i \<in> set ?L. finite (?A i)" using finite_fills[of b] by simp
    show "\<forall>i \<in> set ?L. \<forall>j \<in> set ?L. i \<noteq> j \<longrightarrow> ?A i \<inter> ?A j = {}" by auto
  qed
  also have "\<dots> = (\<Sum>num\<leftarrow>?L. card (?A num))"
    by (rule sum_list_distinct_conv_sum_set[symmetric]) simp
  finally show ?thesis .
qed

lemma countNums_min:
  assumes "\<And>num k. num \<in> set nums \<Longrightarrow> valid num \<Longrightarrow> 1 \<le> k \<Longrightarrow> branch num k = min k (int (N num))"
    and "0 \<le> count" "count < limit"
  shows "countNums valid branch limit nums count =
    min limit (count + (\<Sum>num\<leftarrow>nums. if valid num then int (N num) else 0))"
  using assms
proof (induction nums arbitrary: count)
  case Nil
  then show ?case by simp
next
  case (Cons num nums)
  let ?rest = "\<Sum>num\<leftarrow>nums. if valid num then int (N num) else 0"
  have rest: "0 \<le> ?rest" by (rule sum_list_nonneg) auto
  have IH: "countNums valid branch limit nums c = min limit (c + ?rest)" if "0 \<le> c" "c < limit" for c
    using Cons.IH[OF _ that] Cons.prems(1) by simp
  show ?case
  proof (cases "valid num")
    case False
    then show ?thesis using IH[OF Cons.prems(2,3)] by simp
  next
    case True
    have br: "branch num (limit - count) = min (limit - count) (int (N num))"
      using Cons.prems(1)[of num "limit - count"] True Cons.prems(3) by simp
    show ?thesis
    proof (cases "count + branch num (limit - count) \<ge> limit")
      case ge: True
      then show ?thesis using True br rest Cons.prems(2,3) by (simp add: Let_def)
    next
      case lt: False
      then have "count + branch num (limit - count) = count + int (N num)"
        and "0 \<le> count + int (N num)" "count + int (N num) < limit"
        using br Cons.prems(2) by (auto simp: min_def split: if_splits)
      then show ?thesis using True lt IH[of "count + int (N num)"] by (simp add: Let_def add.assoc)
    qed
  qed
qed

lemma int_sum_list_map: "int (\<Sum>x\<leftarrow>xs. f x) = (\<Sum>x\<leftarrow>xs. int (f x))"
  by (induction xs) auto

lemma countSolutions_fills:
  assumes "wfBoard b" "1 \<le> limit"
  shows "countSolutions b limit = min limit (int (card (fills b)))"
  using assms
proof (induction b limit rule: countSolutions.induct)
  case (1 board limit)
  note wf = "1.prems"(1) and lim = "1.prems"(2)
  show ?case
  proof (cases "firstCell (\<lambda>v. v = None) board")
    case None
    have "\<not> isEmptyCell (cellAt board p)" if "p \<in> set allCells" for p
      using firstCell_None[OF wfBoardD(1)[OF wf] None that] wfBoard_empty_iff[OF wf that] by simp
    then have "fills board = {board}" using fills_full[OF wfBoard_ok[OF wf]] by blast
    moreover have "countSolutions board limit = 1"
      by (subst countSolutions.simps) (simp only: None option.case)
    ultimately show ?thesis using lim by simp
  next
    case (Some x)
    obtain row col where x: "x = (row, col)" by (cases x)
    note fc = Some[unfolded x]
    from firstCell_Some[OF fc] have pin: "(row, col) \<in> set allCells"
      and pnone: "cellAt board (row, col) = None" by auto
    define L where "L = [1, 2, 3, 4, 5, 6, 7, 8, 9::nat]"
    have setL: "num \<noteq> 0 \<and> 1 \<le> num \<and> num \<le> 9" if "num \<in> set L" for num
      using that by (auto simp: L_def)
    let ?valid = "\<lambda>num. isValid board row col num"
    let ?A = "\<lambda>num. {s \<in> fills board. cellAt s (row, col) = Some num}"
    let ?child = "\<lambda>num. map (map zeroToNull) (setCell board row col (Some num))"
    have pe: "isEmptyCell (cellAt board (row, col))" using pnone by (simp add: isEmptyCell_def)
    have A_valid: "fills (setCell board row col (Some num)) = ?A num"
      if "num \<in> set L" "?valid num" for num
    proof (rule fills_place[OF wfBoard_ok[OF wf] pin pe])
      show "num \<noteq> 0" using setL[OF that(1)] by simp
      fix q assume "q \<in> set allCells" "sameUnit (row, col) q"
      then show "cellAt board q \<noteq> Some num" using that(2) isValid_iff[OF pin, of board num] by blast
    qed
    have A_invalid: "?A num = {}" if "num \<in> set L" "\<not> ?valid num" for num
    proof -
      from that(2) obtain q where "q \<in> set allCells" "sameUnit (row, col) q" "cellAt board q = Some num"
        using isValid_iff[OF pin, of board num] by blast
      moreover have "num \<noteq> 0" using setL[OF that(1)] by simp
      ultimately show ?thesis using fills_blocked[OF pin pe] by blast
    qed
    have branch: "countSolutions (?child num) k = min k (int (card (?A num)))"
      if "num \<in> set L" "?valid num" "1 \<le> k" for num k
    proof -
      have "wfBoard (setCell board row col (Some num))"
        using wfBoard_setCell[OF wf pin, of num] setL[OF that(1)] by simp
      then have eq: "?child num = setCell board row col (Some num)"
        and wf': "wfBoard (?child num)" by (simp_all add: wfBoard_zeroToNull)
      from "1.IH"[OF fc refl that(1)[unfolded L_def] that(2) wf' that(3)]
      show ?thesis using eq A_valid[OF that(1,2)] by simp
    qed
    have "countSolutions board limit =
        countNums ?valid (\<lambda>num budget. countSolutions (?child num) budget) limit L 0"
      unfolding L_def by (subst countSolutions.simps) (simp only: fc option.case prod.case)
    also have "\<dots> = min limit (0 + (\<Sum>num\<leftarrow>L. if ?valid num then int (card (?A num)) else 0))"
      by (rule countNums_min) (use branch lim in auto)
    also have "(\<Sum>num\<leftarrow>L. if ?valid num then int (card (?A num)) else 0) = (\<Sum>num\<leftarrow>L. int (card (?A num)))"
      by (rule arg_cong[where f = sum_list], rule map_cong) (simp_all add: A_invalid)
    also have "\<dots> = int (\<Sum>num\<leftarrow>L. card (?A num))"
      by (simp only: int_sum_list_map)
    also have "(\<Sum>num\<leftarrow>L. card (?A num)) = card (fills board)"
      using card_fills_split[OF pin, of board] by (simp only: L_def)
    finally show ?thesis by simp
  qed
qed

section \<open>Solutions and completions: proofs\<close>

lemma unit_facts_all: "\<forall>u \<in> set allUnits. distinct u \<and> length u = 9 \<and> set u \<subseteq> set allCells"
  by code_simp

lemma unit_facts:
  assumes "u \<in> set allUnits"
  shows "distinct u" "length u = 9" "set u \<subseteq> set allCells"
  using assms unit_facts_all by blast+

lemma digits_set: "set (map Some [1..<10]) = {v. \<exists>n::nat. v = Some n \<and> 1 \<le> n \<and> n \<le> 9}"
  by auto

lemma isSolution_full:
  assumes "isSolution s"
  shows "fullBoard s"
proof (rule fullBoardI)
  show "dims9 s" using assms by (simp add: isSolution_def)
next
  fix p assume p: "p \<in> set allCells"
  then have "rowCells (fst p) \<in> set allUnits" "p \<in> set (rowCells (fst p))"
    by (auto simp: in_allUnits in_rowCells mem_allCells)
  with assms have "cellAt s p \<in> set (map Some [1..<10])"
    unfolding isSolution_def by (metis image_eqI set_map)
  then show "\<exists>n. cellAt s p = Some n \<and> 1 \<le> n \<and> n \<le> 9"
    unfolding digits_set by blast
qed

lemma isSolution_distinct:
  assumes "isSolution s" "p \<in> set allCells" "q \<in> set allCells" "p \<noteq> q" "sameUnit p q"
  shows "cellAt s p \<noteq> cellAt s q"
proof
  assume eq: "cellAt s p = cellAt s q"
  from fullBoardD(2)[OF isSolution_full[OF assms(1)] assms(2)] have "cellAt s p \<noteq> None" by auto
  with eq assms(4,5) have "clash s p q" by (simp add: clash_def)
  with isSolution_no_clash[OF assms(1,2,3)] show False by simp
qed

lemma isSolutionI:
  assumes full: "fullBoard s"
    and diff: "\<And>p q. p \<in> set allCells \<Longrightarrow> q \<in> set allCells \<Longrightarrow> p \<noteq> q \<Longrightarrow> sameUnit p q \<Longrightarrow>
      cellAt s p \<noteq> cellAt s q"
  shows "isSolution s"
  unfolding isSolution_def
proof (intro conjI ballI)
  show "dims9 s" using full by (rule fullBoardD)
next
  fix u assume u: "u \<in> set allUnits"
  note uf = unit_facts[OF u]
  have "inj_on (cellAt s) (set u)"
  proof (rule inj_onI)
    fix x y assume xy: "x \<in> set u" "y \<in> set u" "cellAt s x = cellAt s y"
    show "x = y"
    proof (rule ccontr)
      assume "x \<noteq> y"
      moreover have "sameUnit x y" using in_unit_sameUnit[OF u xy(1,2)] .
      ultimately show False using diff[of x y] xy uf(3) by blast
    qed
  qed
  with uf(1) show d: "distinct (map (cellAt s) u)" by (simp add: distinct_map)
  have sub: "set (map (cellAt s) u) \<subseteq> set (map Some [1..<10])"
    unfolding digits_set using fullBoardD(2)[OF full] uf(3) by auto
  have "card (set (map (cellAt s) u)) = 9" using distinct_card[OF d] uf(2) by simp
  moreover have "card (set (map Some [1..<10::nat])) = 9"
    by (subst distinct_card) (simp_all add: distinct_map)
  ultimately show "set (map (cellAt s) u) = set (map Some [1..<10])"
    using sub by (intro card_subset_eq) simp_all
qed

lemma fills_completions:
  assumes wf: "wfBoard b" and nc: "noClash b"
  shows "fills b = completions b"
proof (intro set_eqI iffI)
  fix s assume s: "s \<in> fills b"
  then have full: "fullBoard s"
    and agree: "\<And>q. q \<in> set allCells \<Longrightarrow> \<not> isEmptyCell (cellAt b q) \<Longrightarrow> cellAt s q = cellAt b q"
    and diff: "\<And>x y. x \<in> set allCells \<Longrightarrow> y \<in> set allCells \<Longrightarrow> x \<noteq> y \<Longrightarrow> sameUnit x y \<Longrightarrow>
        isEmptyCell (cellAt b x) \<or> isEmptyCell (cellAt b y) \<Longrightarrow> cellAt s x \<noteq> cellAt s y"
    unfolding fills_mem by blast+
  have "isSolution s"
  proof (rule isSolutionI[OF full])
    fix p q assume pq: "p \<in> set allCells" "q \<in> set allCells" "p \<noteq> q" "sameUnit p q"
    show "cellAt s p \<noteq> cellAt s q"
    proof (cases "isEmptyCell (cellAt b p) \<or> isEmptyCell (cellAt b q)")
      case True
      then show ?thesis using diff[OF pq] by simp
    next
      case False
      then have "cellAt s p = cellAt b p" "cellAt s q = cellAt b q" "cellAt b p \<noteq> None"
        using agree pq(1,2) by (auto simp: isEmptyCell_def)
      moreover have "\<not> clash b p q" using nc pq(1,2) by (simp add: noClash_def)
      ultimately show ?thesis using pq(3,4) by (auto simp: clash_def)
    qed
  qed
  moreover have "agreesWith b s"
    unfolding agreesWith_def using agree wfBoard_empty_iff[OF wf] by simp
  ultimately show "s \<in> completions b" by (simp add: completions_def)
next
  fix s assume "s \<in> completions b"
  then have sol: "isSolution s" and ag: "agreesWith b s" by (simp_all add: completions_def)
  show "s \<in> fills b"
    unfolding fills_mem
  proof (intro conjI ballI impI)
    show "fullBoard s" using sol by (rule isSolution_full)
  next
    fix p assume "p \<in> set allCells" "\<not> isEmptyCell (cellAt b p)"
    then show "cellAt s p = cellAt b p" using ag by (auto simp: agreesWith_def isEmptyCell_def)
  next
    fix p q assume "p \<in> set allCells" "q \<in> set allCells"
      "p \<noteq> q \<and> sameUnit p q \<and> (isEmptyCell (cellAt b p) \<or> isEmptyCell (cellAt b q))"
    then show "cellAt s p \<noteq> cellAt s q" using isSolution_distinct[OF sol] by blast
  qed
qed

lemma allOnes_wf: "wfBoard allOnes"
  by code_simp

lemma allOnes_full: "firstCell (\<lambda>v. v = None) allOnes = None"
  by code_simp

lemma allOnes_completions: "completions allOnes = {}"
proof -
  have False if "s \<in> completions allOnes" for s
  proof -
    from that have sol: "isSolution s" and ag: "agreesWith allOnes s" by (simp_all add: completions_def)
    have in1: "(0, 0) \<in> set allCells" and in2: "(0, 1) \<in> set allCells" by (simp_all add: set_allCells)
    have "cellAt allOnes (0, 0) = Some 1" "cellAt allOnes (0, 1) = Some 1"
      by (simp_all add: cellAt_def allOnes_def)
    with ag in1 in2 have "cellAt s (0, 0) = cellAt s (0, 1)"
      unfolding agreesWith_def by (metis option.distinct(1))
    moreover have "sameUnit (0, 0) (0, 1)" by (simp add: sameUnit_def)
    ultimately show False using isSolution_distinct[OF sol in1 in2] by simp
  qed
  then show ?thesis by blast
qed

section \<open>The general solver: proofs\<close>

lemma fills_digit:
  assumes "s \<in> fills b" "p \<in> set allCells"
  shows "\<exists>num \<in> set [1, 2, 3, 4, 5, 6, 7, 8, 9]. cellAt s p = Some num"
proof -
  from assms(1) have "fullBoard s" by (simp add: fills_mem)
  from fullBoardD(2)[OF this assms(2)] obtain n where n: "cellAt s p = Some n" "1 \<le> n" "n \<le> 9"
    by blast
  then have "n \<in> set [1, 2, 3, 4, 5, 6, 7, 8, 9]" by simp arith
  with n(1) show ?thesis by blast
qed

lemma place_valid:
  assumes "okBoard b" "(r, c) \<in> set allCells" "isEmptyCell (cellAt b (r, c))" "num \<noteq> 0"
    "isValid b r c num"
  shows "fills (setCell b r c (Some num)) = {s \<in> fills b. cellAt s (r, c) = Some num}"
proof (rule fills_place[OF assms(1-4)])
  fix q assume "q \<in> set allCells" "sameUnit (r, c) q"
  then show "cellAt b q \<noteq> Some num" using assms(5) isValid_iff[OF assms(2), of b num] by blast
qed

lemma place_invalid:
  assumes "(r, c) \<in> set allCells" "isEmptyCell (cellAt b (r, c))" "num \<noteq> 0"
    "\<not> isValid b r c num"
  shows "{s \<in> fills b. cellAt s (r, c) = Some num} = {}"
proof -
  from assms(4) obtain q where "q \<in> set allCells" "sameUnit (r, c) q" "cellAt b q = Some num"
    using isValid_iff[OF assms(1), of b num] by blast
  then show ?thesis using fills_blocked[OF assms(1,2,3)] by blast
qed

lemma isValid_nullToZero:
  assumes "dims9 b" "(r, c) \<in> set allCells" "num \<noteq> 0"
  shows "isValid (map (map nullToZero) b) r c num = isValid b r c num"
proof -
  have "cellAt (map (map nullToZero) b) q = Some num \<longleftrightarrow> cellAt b q = Some num"
    if "q \<in> set allCells" for q
    using assms(3) by (auto simp: cellAt_map[OF assms(1) that] nullToZero_def)
  then show ?thesis unfolding isValid_iff[OF assms(2)] by simp
qed

lemma copyBoard_id: "copyBoard b = b"
  by (simp add: copyBoard_def)

lemma solve_fills:
  assumes "wfBoard b"
  shows "\<exists>ok b'. solve b = Some (ok, b') \<and>
    (if fills b = {} then \<not> ok \<and> b' = b else ok \<and> b' \<in> fills b)"
  using assms
proof (induction "emptyCells b" arbitrary: b rule: less_induct)
  case less
  note wf = less.prems
  show ?case
  proof (cases "firstCell (\<lambda>v. v = None) b")
    case None
    have "\<not> isEmptyCell (cellAt b p)" if "p \<in> set allCells" for p
      using firstCell_None[OF wfBoardD(1)[OF wf] None that] wfBoard_empty_iff[OF wf that] by simp
    then have "fills b = {b}" using fills_full[OF wfBoard_ok[OF wf]] by blast
    moreover have "solve b = Some (True, b)"
      by (subst solve.simps) (simp only: None option.case)
    ultimately show ?thesis by auto
  next
    case (Some x)
    obtain row col where x: "x = (row, col)" by (cases x)
    note fc = Some[unfolded x]
    from firstCell_Some[OF fc] have pin: "(row, col) \<in> set allCells"
      and pnone: "cellAt b (row, col) = None" by auto
    have pe: "isEmptyCell (cellAt b (row, col))" using pnone by (simp add: isEmptyCell_def)
    define L where "L = [1, 2, 3, 4, 5, 6, 7, 8, 9::nat]"
    have setL: "num \<noteq> 0 \<and> 1 \<le> num \<and> num \<le> 9" if "num \<in> set L" for num
      using that by (auto simp: L_def)
    let ?A = "\<lambda>num. {s \<in> fills b. cellAt s (row, col) = Some num}"
    have loop: "\<exists>ok b'. solveNums solve row col nums b = Some (ok, b') \<and>
        (if (\<forall>num \<in> set nums. ?A num = {}) then \<not> ok \<and> b' = b else ok \<and> b' \<in> fills b)"
      if "set nums \<subseteq> set L" for nums
      using that
    proof (induction nums)
      case Nil
      show ?case by auto
    next
      case (Cons num nums)
      from Cons.prems have numL: "num \<in> set L" and "set nums \<subseteq> set L" by auto
      note IH = Cons.IH[OF this(2)]
      note n0 = setL[OF numL]
      have nz: "isValid (map (map nullToZero) b) row col num = isValid b row col num"
        using isValid_nullToZero[OF wfBoardD(1)[OF wf] pin] n0 by simp
      show ?case
      proof (cases "isValid b row col num")
        case False
        then have "?A num = {}" using place_invalid[OF pin pe _ False] n0 by simp
        then show ?thesis using False IH nz by simp
      next
        case True
        let ?c = "setCell b row col (Some num)"
        have Aeq: "fills ?c = ?A num"
          using place_valid[OF wfBoard_ok[OF wf] pin pe _ True] n0 by simp
        have wf': "wfBoard ?c" using wfBoard_setCell[OF wf pin] n0 by simp
        have "emptyCells ?c < emptyCells b"
          using firstCell_SomeD[OF fc] n0 by (intro emptyCells_setCell) (auto simp: isEmptyCell_def)
        from less.hyps[OF this wf'] obtain ok b' where rec: "solve ?c = Some (ok, b')"
          and res: "if fills ?c = {} then \<not> ok \<and> b' = ?c else ok \<and> b' \<in> fills ?c"
          by blast
        show ?thesis
        proof (cases ok)
          case ok: True
          with res have "b' \<in> fills ?c" by (auto split: if_splits)
          then have "b' \<in> ?A num" using Aeq by simp
          then have "b' \<in> fills b" "?A num \<noteq> {}" by auto
          then show ?thesis using True nz rec ok by auto
        next
          case nok: False
          with res have e: "fills ?c = {}" and b': "b' = ?c" by (auto split: if_splits)
          have "setCell b' row col None = b"
            unfolding b' setCell_setCell using pnone by (rule setCell_same)
          moreover have "?A num = {}" using e Aeq by simp
          ultimately show ?thesis using True nz rec nok IH by simp
        qed
      qed
    qed
    have "solve b = solveNums solve row col L b"
      unfolding L_def by (subst solve.simps) (simp only: fc option.case prod.case)
    moreover have "(\<forall>num \<in> set L. ?A num = {}) \<longleftrightarrow> fills b = {}"
      using fills_digit[OF _ pin, of _ b] unfolding L_def by blast
    ultimately show ?thesis using loop[of L] by simp
  qed
qed

section \<open>The shuffle and the filler: proofs\<close>

lemma shuffleLoop_set:
  assumes "k < length a"
  shows "set (fst (shuffleLoop k rnd a)) = set a \<and> length (fst (shuffleLoop k rnd a)) = length a"
  using assms
proof (induction k arbitrary: rnd a)
  case 0
  show ?case by simp
next
  case (Suc k)
  let ?j = "rnd 0 mod (Suc k + 1)"
  let ?a = "a[Suc k := a ! ?j, ?j := a ! Suc k]"
  have "?j < Suc k + 1" by (rule mod_less_divisor) simp
  then have j: "?j < length a" using Suc.prems by linarith
  have "set ?a = set a" using Suc.prems j by (simp add: set_swap)
  moreover have "length ?a = length a" by simp
  moreover have "k < length ?a" using Suc.prems by simp
  ultimately show ?case using Suc.IH[of ?a "\<lambda>n. rnd (Suc n)"] by (simp add: Let_def)
qed

lemma shuffle_set:
  assumes "shuffle rnd arr = (res, rnd')"
  shows "set res = set arr"
proof (cases "arr = []")
  case True
  with assms show ?thesis by (simp add: shuffle_def)
next
  case False
  then have "length arr - 1 < length arr" by simp
  from shuffleLoop_set[OF this, of rnd] assms show ?thesis by (simp add: shuffle_def)
qed

lemma zeroBoardD:
  assumes "zeroBoard b"
  shows "dims9 b" and "p \<in> set allCells \<Longrightarrow> \<exists>n\<le>9. cellAt b p = Some n"
proof -
  show "dims9 b" using assms by (simp add: zeroBoard_def)
  assume "p \<in> set allCells"
  with assms have "case cellAt b p of None \<Rightarrow> False | Some n \<Rightarrow> n \<le> 9"
    unfolding zeroBoard_def by blast
  then show "\<exists>n\<le>9. cellAt b p = Some n"
    by (cases "cellAt b p") auto
qed

lemma zeroBoardI:
  assumes "dims9 b" "\<And>p. p \<in> set allCells \<Longrightarrow> \<exists>n\<le>9. cellAt b p = Some n"
  shows "zeroBoard b"
  unfolding zeroBoard_def using assms by (fastforce split: option.splits)

lemma zeroBoard_ok: "zeroBoard b \<Longrightarrow> okBoard b"
  unfolding zeroBoard_def okBoard_def by (fastforce split: option.splits)

lemma zeroBoard_empty_iff:
  assumes "zeroBoard b" "p \<in> set allCells"
  shows "isEmptyCell (cellAt b p) \<longleftrightarrow> cellAt b p = Some 0"
  using zeroBoardD(2)[OF assms] by (auto simp: isEmptyCell_def)

lemma zeroBoard_setCell:
  assumes "zeroBoard b" "(r, c) \<in> set allCells" "num \<le> 9"
  shows "zeroBoard (setCell b r c (Some num))"
proof (rule zeroBoardI)
  show "dims9 (setCell b r c (Some num))" using assms(1) by (simp add: dims9_setCell zeroBoardD)
next
  fix p assume "p \<in> set allCells"
  then show "\<exists>n\<le>9. cellAt (setCell b r c (Some num)) p = Some n"
    using zeroBoardD(2)[OF assms(1), of p] assms(3)
    by (simp add: cellAt_setCell9[OF zeroBoardD(1)[OF assms(1)] assms(2)])
qed

lemma fillBoard_fills:
  assumes "zeroBoard b"
  shows "\<exists>ok rnd' b'. fillBoard rnd b = Some (ok, rnd', b') \<and>
    (if fills b = {} then \<not> ok \<and> b' = b else ok \<and> b' \<in> fills b)"
  using assms
proof (induction "emptyCells b" arbitrary: b rnd rule: less_induct)
  case less
  note zb = less.prems
  show ?case
  proof (cases "firstCell (\<lambda>v. v = Some 0) b")
    case None
    have "\<not> isEmptyCell (cellAt b p)" if "p \<in> set allCells" for p
      using firstCell_None[OF zeroBoardD(1)[OF zb] None that] zeroBoard_empty_iff[OF zb that] by simp
    then have "fills b = {b}" using fills_full[OF zeroBoard_ok[OF zb]] by blast
    moreover have "fillBoard rnd b = Some (True, rnd, b)"
      by (subst fillBoard.simps) (simp only: None option.case)
    ultimately show ?thesis by auto
  next
    case (Some x)
    obtain row col where x: "x = (row, col)" by (cases x)
    note fc = Some[unfolded x]
    from firstCell_Some[OF fc] have pin: "(row, col) \<in> set allCells"
      and pzero: "cellAt b (row, col) = Some 0" by auto
    have pe: "isEmptyCell (cellAt b (row, col))" using pzero by (simp add: isEmptyCell_def)
    define L where "L = [1, 2, 3, 4, 5, 6, 7, 8, 9::nat]"
    have setL: "num \<noteq> 0 \<and> 1 \<le> num \<and> num \<le> 9" if "num \<in> set L" for num
      using that by (auto simp: L_def)
    let ?A = "\<lambda>num. {s \<in> fills b. cellAt s (row, col) = Some num}"
    have loop: "\<exists>ok rnd' b'. fillNums fillBoard row col nums rnd b = Some (ok, rnd', b') \<and>
        (if (\<forall>num \<in> set nums. ?A num = {}) then \<not> ok \<and> b' = b else ok \<and> b' \<in> fills b)"
      if "set nums \<subseteq> set L" for nums rnd
      using that
    proof (induction nums arbitrary: rnd)
      case Nil
      show ?case by auto
    next
      case (Cons num nums)
      from Cons.prems have numL: "num \<in> set L" and "set nums \<subseteq> set L" by auto
      note IH = Cons.IH[OF this(2)]
      note n0 = setL[OF numL]
      show ?case
      proof (cases "isValid b row col num")
        case False
        then have "?A num = {}" using place_invalid[OF pin pe _ False] n0 by simp
        then show ?thesis using False IH[of rnd] by simp
      next
        case True
        let ?c = "setCell b row col (Some num)"
        have Aeq: "fills ?c = ?A num"
          using place_valid[OF zeroBoard_ok[OF zb] pin pe _ True] n0 by simp
        have zb': "zeroBoard ?c" using zeroBoard_setCell[OF zb pin] n0 by simp
        have "emptyCells ?c < emptyCells b"
          using firstCell_SomeD[OF fc] n0 by (intro emptyCells_setCell) (auto simp: isEmptyCell_def)
        from less.hyps[OF this zb', of rnd] obtain ok rnd1 b'
          where rec: "fillBoard rnd ?c = Some (ok, rnd1, b')"
          and res: "if fills ?c = {} then \<not> ok \<and> b' = ?c else ok \<and> b' \<in> fills ?c"
          by blast
        show ?thesis
        proof (cases ok)
          case ok: True
          with res have "b' \<in> fills ?c" by (auto split: if_splits)
          then have "b' \<in> ?A num" using Aeq by simp
          then have "b' \<in> fills b" "?A num \<noteq> {}" by auto
          then show ?thesis using True rec ok by auto
        next
          case nok: False
          with res have e: "fills ?c = {}" and b': "b' = ?c" by (auto split: if_splits)
          have "setCell b' row col (Some 0) = b"
            unfolding b' setCell_setCell using pzero by (rule setCell_same)
          moreover have "?A num = {}" using e Aeq by simp
          ultimately show ?thesis using True rec nok IH[of rnd1] by simp
        qed
      qed
    qed
    obtain nums rnd1 where sh: "shuffle rnd L = (nums, rnd1)" by (cases "shuffle rnd L")
    then have sn: "set nums = set L" by (rule shuffle_set)
    have "fillBoard rnd b = fillNums fillBoard row col nums rnd1 b"
      using sh unfolding L_def by (subst fillBoard.simps) (simp only: fc option.case prod.case)
    moreover have "(\<forall>num \<in> set nums. ?A num = {}) \<longleftrightarrow> fills b = {}"
      unfolding sn using fills_digit[OF _ pin, of _ b] unfolding L_def by blast
    ultimately show ?thesis using loop[of nums rnd1] sn by simp
  qed
qed

section \<open>The carver: proofs\<close>

lemma emptyGrid_zero: "zeroBoard emptyGrid"
  by code_simp

lemma emptyGrid_cell: "p \<in> set allCells \<Longrightarrow> cellAt emptyGrid p = Some 0"
  by (cases p) (auto simp: set_allCells cellAt_def emptyGrid_def)

lemma fills_emptyGrid: "fills emptyGrid = {s. isSolution s}"
proof (intro set_eqI iffI)
  fix s assume "s \<in> fills emptyGrid"
  then have "fullBoard s"
    and "\<And>x y. x \<in> set allCells \<Longrightarrow> y \<in> set allCells \<Longrightarrow> x \<noteq> y \<Longrightarrow> sameUnit x y \<Longrightarrow>
        cellAt s x \<noteq> cellAt s y"
    unfolding fills_mem by (auto simp: emptyGrid_cell isEmptyCell_def)
  then show "s \<in> {s. isSolution s}" using isSolutionI by blast
next
  fix s assume "s \<in> {s. isSolution s}"
  then have sol: "isSolution s" by simp
  show "s \<in> fills emptyGrid"
    unfolding fills_mem
    using isSolution_full[OF sol] isSolution_distinct[OF sol]
    by (auto simp: emptyGrid_cell isEmptyCell_def)
qed

lemma exampleSolution_sol: "isSolution exampleSolution"
  by code_simp

lemma fillBoard_emptyGrid:
  "\<exists>rnd' solution. fillBoard rnd emptyGrid = Some (True, rnd', solution) \<and> isSolution solution"
proof -
  have ne: "fills emptyGrid \<noteq> {}" using exampleSolution_sol unfolding fills_emptyGrid by blast
  from fillBoard_fills[OF emptyGrid_zero, of rnd] obtain ok rnd' b'
    where "fillBoard rnd emptyGrid = Some (ok, rnd', b')"
      and "if fills emptyGrid = {} then \<not> ok \<and> b' = emptyGrid else ok \<and> b' \<in> fills emptyGrid"
    by blast
  with ne have "fillBoard rnd emptyGrid = Some (True, rnd', b')" "b' \<in> fills emptyGrid"
    by (simp_all split: if_splits)
  then show ?thesis unfolding fills_emptyGrid by blast
qed

lemma within_wf:
  assumes "isSolution sol" "within p sol"
  shows "wfBoard p"
proof (rule wfBoardI)
  show "dims9 p" using assms(2) by (simp add: within_def)
next
  fix q assume q: "q \<in> set allCells"
  from fullBoardD(2)[OF isSolution_full[OF assms(1)] q] assms(2) q
  show "cellAt p q = None \<or> (\<exists>n. cellAt p q = Some n \<and> 1 \<le> n \<and> n \<le> 9)"
    unfolding within_def by metis
qed

lemma within_noClash:
  assumes "isSolution sol" "within p sol"
  shows "noClash p"
  unfolding noClash_def
proof (intro ballI notI)
  fix x y assume xy: "x \<in> set allCells" "y \<in> set allCells" "clash p x y"
  then have "x \<noteq> y" "sameUnit x y" "cellAt p x \<noteq> None" "cellAt p y = cellAt p x"
    by (simp_all add: clash_def)
  moreover from this assms(2) xy(1,2) have "cellAt sol x = cellAt sol y"
    unfolding within_def by metis
  ultimately show False using isSolution_distinct[OF assms(1) xy(1,2)] by simp
qed

lemma within_agrees:
  assumes "within p sol"
  shows "agreesWith p sol"
  using assms unfolding within_def agreesWith_def by metis

lemma within_setCell_None:
  assumes "within p sol" "(r, c) \<in> set allCells"
  shows "within (setCell p r c None) sol"
  using assms unfolding within_def
  by (auto simp: dims9_setCell cellAt_setCell9)

lemma within_refl: "dims9 s \<Longrightarrow> within s s"
  by (simp add: within_def)

lemma carve_restore: "setCell (setCell p r c v) r c (p ! r ! c) = p"
  unfolding setCell_setCell by (rule setCell_same) (simp add: cellAt_def)

lemma carve_inv:
  assumes sol: "isSolution sol" and "within p sol" "completions p = {sol}" "set cells \<subseteq> set allCells"
  shows "within (carve p cells removed target) sol \<and> completions (carve p cells removed target) = {sol}"
  using assms(2-)
proof (induction cells arbitrary: p removed)
  case Nil
  then show ?case by simp
next
  case (Cons x cells)
  obtain row col where x: "x = (row, col)" by (cases x)
  from Cons.prems(3) have pin: "(row, col) \<in> set allCells" and rest: "set cells \<subseteq> set allCells"
    by (auto simp: x)
  let ?p1 = "setCell p row col None"
  have w1: "within ?p1 sol" using within_setCell_None[OF Cons.prems(1) pin] .
  show ?case
  proof (cases "removed \<ge> target")
    case True
    then show ?thesis using Cons.prems by (simp add: x)
  next
    case False
    show ?thesis
    proof (cases "countSolutions ?p1 2 = 1")
      case one: True
      have "countSolutions ?p1 2 = min 2 (int (card (fills ?p1)))"
        by (rule countSolutions_fills[OF within_wf[OF sol w1]]) simp
      then have "card (completions ?p1) = 1"
        using one fills_completions[OF within_wf[OF sol w1] within_noClash[OF sol w1]] by simp
      then obtain y where y: "completions ?p1 = {y}" by (rule card_1_singletonE)
      have "sol \<in> completions ?p1"
        using sol within_agrees[OF w1] by (simp add: completions_def)
      with y have "completions ?p1 = {sol}" by simp
      from Cons.IH[OF w1 this rest, of "removed + 1"] show ?thesis
        using False one by (simp add: x Let_def copyBoard_id)
    next
      case other: False
      from Cons.IH[OF Cons.prems(1,2) rest, of removed] show ?thesis
        using False other by (simp add: x Let_def copyBoard_id carve_restore)
    qed
  qed
qed

lemma filter_update_ge: "length (filter P xs) \<le> Suc (length (filter P (xs[i := v])))"
proof (induction xs arbitrary: i)
  case Nil
  show ?case by simp
next
  case (Cons a xs)
  show ?case using Cons.IH by (cases i) (auto simp: le_SucI)
qed

lemma clueCount_sum: "clueCount b = sum_list (map (\<lambda>row. length (filter (\<lambda>v. v \<noteq> None) row)) b)"
  unfolding clueCount_def by (induction b) auto

lemma clueCount_setCell: "clueCount p \<le> Suc (clueCount (setCell p r c v))"
proof (cases "r < length p")
  case True
  let ?f = "\<lambda>row. length (filter (\<lambda>v. v \<noteq> None) row)"
  have "sum_list ((map ?f p)[r := ?f ((p ! r)[c := v])]) =
        sum_list (map ?f p) + ?f ((p ! r)[c := v]) - (map ?f p) ! r"
    using True by (simp add: sum_list_update)
  moreover have "?f (p ! r) \<le> Suc (?f ((p ! r)[c := v]))" by (rule filter_update_ge)
  moreover have "?f (p ! r) \<le> sum_list (map ?f p)"
    using True by (intro member_le_sum_list) auto
  ultimately show ?thesis
    using True by (simp add: clueCount_sum setCell_def map_update)
next
  case False
  then have "length p \<le> r" by simp
  then have "setCell p r c v = p" unfolding setCell_def by (simp only: list_update_beyond)
  then show ?thesis by simp
qed

lemma carve_count:
  assumes "removed \<le> target"
  shows "clueCount p + removed \<le> clueCount (carve p cells removed target) + target"
  using assms
proof (induction cells arbitrary: p removed)
  case Nil
  then show ?case by simp
next
  case (Cons x cells)
  obtain row col where x: "x = (row, col)" by (cases x)
  let ?p1 = "setCell p row col None"
  show ?case
  proof (cases "removed \<ge> target")
    case True
    then show ?thesis using Cons.prems by (simp add: x)
  next
    case False
    show ?thesis
    proof (cases "countSolutions ?p1 2 = 1")
      case one: True
      from False have "removed + 1 \<le> target" by simp
      from Cons.IH[OF this, of ?p1] clueCount_setCell[of p row col None]
      show ?thesis using False one by (simp add: x Let_def copyBoard_id)
    next
      case other: False
      from Cons.IH[OF Cons.prems, of p] show ?thesis
        using False other by (simp add: x Let_def copyBoard_id carve_restore)
    qed
  qed
qed

lemma clueCount_full:
  assumes "fullBoard s"
  shows "clueCount s = 81"
proof -
  have d: "dims9 s" using assms by (rule fullBoardD)
  have "v \<noteq> None" if "v \<in> set (concat s)" for v
  proof -
    from that obtain row where "row \<in> set s" "v \<in> set row" by auto
    then obtain r c where "r < length s" "row = s ! r" "c < length row" "v = row ! c"
      by (auto simp: in_set_conv_nth)
    then have "(r, c) \<in> set allCells" "v = cellAt s (r, c)"
      using d by (auto simp: set_allCells cellAt_def dims9D)
    then show ?thesis using fullBoardD(2)[OF assms] by force
  qed
  then have "filter (\<lambda>v. v \<noteq> None) (concat s) = concat s" by (simp add: filter_id_conv)
  moreover have "length (concat s) = 81"
  proof -
    have "map length s = replicate 9 9"
      using d by (auto simp: dims9_def intro!: replicate_eqI)
    then show ?thesis by (simp add: length_concat sum_list_replicate)
  qed
  ultimately show ?thesis by (simp add: clueCount_def)
qed

lemma cells_shuffled:
  assumes "shuffle rnd (map (\<lambda>i. (i div 9, i mod 9)) [0..<81]) = (cells, rnd')"
  shows "set cells \<subseteq> set allCells"
proof -
  have "set cells = set (map (\<lambda>i. (i div 9, i mod 9)) [0..<81::nat])"
    using assms by (rule shuffle_set)
  also have "\<dots> \<subseteq> set allCells"
  proof -
    have "i div 9 < 9 \<and> i mod 9 < 9" if "i < 81" for i :: nat
      using that by (simp add: less_mult_imp_div_less)
    then show ?thesis unfolding set_allCells set_map set_upt by auto
  qed
  finally show ?thesis .
qed

lemma generatePuzzle_result:
  "\<exists>rnd1 solution cells.
     fillBoard rnd emptyGrid = Some (True, rnd1, solution) \<and> isSolution solution \<and>
     set cells \<subseteq> set allCells \<and>
     generatePuzzle rnd difficulty =
       Some (carve solution cells 0 (81 - DIFFICULTY_CLUES difficulty), solution)"
proof -
  from fillBoard_emptyGrid[of rnd] obtain rnd1 solution
    where fb: "fillBoard rnd emptyGrid = Some (True, rnd1, solution)" and sol: "isSolution solution"
    by blast
  obtain cells rnd2 where sh: "shuffle rnd1 (map (\<lambda>i. (i div 9, i mod 9)) [0..<81]) = (cells, rnd2)"
    by (cases "shuffle rnd1 (map (\<lambda>i. (i div 9, i mod 9)) [0..<81])")
  have "generatePuzzle rnd difficulty =
       Some (carve solution cells 0 (81 - DIFFICULTY_CLUES difficulty), solution)"
    by (simp only: generatePuzzle_def emptyGrid_def[symmetric] fb option.case prod.case
        Let_def sh copyBoard_id)
  with fb sol cells_shuffled[OF sh] show ?thesis by blast
qed

section \<open>Support for the main results\<close>

lemma solvePuzzle_fills:
  assumes "wfBoard b"
  shows "(fills b = {} \<and> solvePuzzle b = Some None) \<or> (\<exists>s \<in> fills b. solvePuzzle b = Some (Some s))"
proof -
  from solve_fills[OF assms] obtain ok b' where s: "solve b = Some (ok, b')"
    and r: "if fills b = {} then \<not> ok \<and> b' = b else ok \<and> b' \<in> fills b" by blast
  show ?thesis
  proof (cases "fills b = {}")
    case True
    with r s show ?thesis by (simp add: solvePuzzle_def copyBoard_id)
  next
    case False
    with r have "ok" "b' \<in> fills b" by simp_all
    with s show ?thesis by (auto simp: solvePuzzle_def copyBoard_id)
  qed
qed

lemma fills_agrees:
  assumes "wfBoard b" "s \<in> fills b"
  shows "agreesWith b s"
  unfolding agreesWith_def using assms(2) wfBoard_empty_iff[OF assms(1)] by (simp add: fills_mem)

lemma exampleSolution_wf: "wfBoard exampleSolution"
  by code_simp

lemma onePuzzle_within: "within onePuzzle exampleSolution"
  by code_simp

lemma onePuzzle_wf: "wfBoard onePuzzle"
  by (rule within_wf[OF exampleSolution_sol onePuzzle_within])

lemma onePuzzle_noClash: "noClash onePuzzle"
  by (rule within_noClash[OF exampleSolution_sol onePuzzle_within])

lemma solve_exampleSolution: "solve exampleSolution = Some (True, exampleSolution)"
proof -
  have "firstCell (\<lambda>v. v = None) exampleSolution = None" by code_simp
  then show ?thesis by (subst solve.simps) (simp only: option.case)
qed

lemma solve_onePuzzle: "solve onePuzzle = Some (True, exampleSolution)"
proof -
  have fc: "firstCell (\<lambda>v. v = None) onePuzzle = Some (0, 0)" by code_simp
  have v: "isValid (map (map nullToZero) onePuzzle) 0 0 1" by code_simp
  have sc: "setCell onePuzzle 0 0 (Some 1) = exampleSolution" by code_simp
  show ?thesis
    by (subst solve.simps)
      (simp only: fc option.case prod.case solveNums.simps v if_True sc solve_exampleSolution
        Option.bind.simps)
qed

lemma solvePuzzle_onePuzzle: "solvePuzzle onePuzzle = Some (Some exampleSolution)"
  by (simp add: solvePuzzle_def copyBoard_id solve_onePuzzle)

lemma solve_allOnes: "solvePuzzle allOnes = Some (Some allOnes)"
proof -
  have "solve allOnes = Some (True, allOnes)"
    by (subst solve.simps) (simp only: allOnes_full option.case)
  then show ?thesis by (simp add: solvePuzzle_def copyBoard_id)
qed

lemma completions_solution:
  assumes "isSolution s"
  shows "completions s = {s}"
proof -
  have full: "fullBoard s" using assms by (rule isSolution_full)
  have w: "within s s" using full by (simp add: within_refl fullBoardD)
  have "\<not> isEmptyCell (cellAt s p)" if "p \<in> set allCells" for p
    using fullBoardD(2)[OF full that] by (auto simp: isEmptyCell_def)
  then have "fills s = {s}"
    by (rule fills_full[OF wfBoard_ok[OF within_wf[OF assms w]]])
  then show ?thesis
    using fills_completions[OF within_wf[OF assms w] within_noClash[OF assms w]] by simp
qed

lemma generatePuzzle_carved:
  "\<exists>puzzle solution. generatePuzzle rnd difficulty = Some (puzzle, solution) \<and>
     isSolution solution \<and> within puzzle solution \<and> completions puzzle = {solution} \<and>
     DIFFICULTY_CLUES difficulty \<le> clueCount puzzle"
proof -
  from generatePuzzle_result[of rnd difficulty] obtain rnd1 solution cells
    where "fillBoard rnd emptyGrid = Some (True, rnd1, solution)"
      and sol: "isSolution solution" and cells: "set cells \<subseteq> set allCells"
      and gen: "generatePuzzle rnd difficulty =
         Some (carve solution cells 0 (81 - DIFFICULTY_CLUES difficulty), solution)"
    by (elim exE conjE)
  let ?puzzle = "carve solution cells 0 (81 - DIFFICULTY_CLUES difficulty)"
  have full: "fullBoard solution" using sol by (rule isSolution_full)
  have w: "within solution solution" using full by (simp add: within_refl fullBoardD)
  have "completions solution = {solution}" using sol by (rule completions_solution)
  from carve_inv[OF sol w this cells] have inv: "within ?puzzle solution" "completions ?puzzle = {solution}"
    by simp_all
  have "clueCount solution + 0 \<le> clueCount ?puzzle + (81 - DIFFICULTY_CLUES difficulty)"
    by (rule carve_count) simp
  moreover have "DIFFICULTY_CLUES difficulty \<le> 81" by (cases difficulty) simp_all
  ultimately have "DIFFICULTY_CLUES difficulty \<le> clueCount ?puzzle"
    using clueCount_full[OF full] by simp
  with gen sol inv show ?thesis by (intro exI[of _ ?puzzle] exI[of _ solution]) simp
qed

lemma fillBoardWithin_eq:
  assumes "zeroBoard b" "emptyCells b < depth"
  shows "fillBoardWithin depth rnd b = fillBoard rnd b"
  using assms
proof (induction depth arbitrary: b rnd)
  case 0
  then show ?case by simp
next
  case (Suc depth)
  note zb = Suc.prems(1)
  show ?case
  proof (cases "firstCell (\<lambda>v. v = Some 0) b")
    case None
    have "fillBoard rnd b = Some (True, rnd, b)"
      by (subst fillBoard.simps) (simp only: None option.case)
    then show ?thesis using None by simp
  next
    case (Some x)
    obtain row col where x: "x = (row, col)" by (cases x)
    note fc = Some[unfolded x]
    from firstCell_Some[OF fc] have pin: "(row, col) \<in> set allCells"
      and pzero: "cellAt b (row, col) = Some 0" by auto
    define L where "L = [1, 2, 3, 4, 5, 6, 7, 8, 9::nat]"
    have setL: "num \<noteq> 0 \<and> 1 \<le> num \<and> num \<le> 9" if "num \<in> set L" for num
      using that by (auto simp: L_def)
    have loop: "fillNums (fillBoardWithin depth) row col nums rnd b =
        fillNums fillBoard row col nums rnd b"
      if "set nums \<subseteq> set L" for nums rnd
      using that
    proof (induction nums arbitrary: rnd)
      case Nil
      show ?case by simp
    next
      case (Cons num nums)
      from Cons.prems have numL: "num \<in> set L" and "set nums \<subseteq> set L" by auto
      note IH = Cons.IH[OF this(2)]
      note n0 = setL[OF numL]
      show ?case
      proof (cases "isValid b row col num")
        case False
        then show ?thesis using IH[of rnd] by simp
      next
        case True
        let ?c = "setCell b row col (Some num)"
        have zb': "zeroBoard ?c" using zeroBoard_setCell[OF zb pin] n0 by simp
        have "emptyCells ?c < emptyCells b"
          using firstCell_SomeD[OF fc] n0 by (intro emptyCells_setCell) (auto simp: isEmptyCell_def)
        then have "emptyCells ?c < depth" using Suc.prems(2) by simp
        from Suc.IH[OF zb' this, of rnd] have eq: "fillBoardWithin depth rnd ?c = fillBoard rnd ?c" .
        from fillBoard_fills[OF zb', of rnd] obtain ok rnd1 b'
          where rec: "fillBoard rnd ?c = Some (ok, rnd1, b')"
          and res: "if fills ?c = {} then \<not> ok \<and> b' = ?c else ok \<and> b' \<in> fills ?c"
          by blast
        show ?thesis
        proof (cases ok)
          case True
          then show ?thesis using \<open>isValid b row col num\<close> eq rec by simp
        next
          case False
          with res have b': "b' = ?c" by (auto split: if_splits)
          have "setCell b' row col (Some 0) = b"
            unfolding b' setCell_setCell using pzero by (rule setCell_same)
          then show ?thesis using \<open>isValid b row col num\<close> eq rec False IH[of rnd1] by simp
        qed
      qed
    qed
    obtain nums rnd1 where sh: "shuffle rnd L = (nums, rnd1)" by (cases "shuffle rnd L")
    then have sn: "set nums = set L" by (rule shuffle_set)
    have "fillBoard rnd b = fillNums fillBoard row col nums rnd1 b"
      using sh unfolding L_def by (subst fillBoard.simps) (simp only: fc option.case prod.case)
    moreover have "fillBoardWithin (Suc depth) rnd b = fillNums (fillBoardWithin depth) row col nums rnd1 b"
      using sh unfolding L_def by (simp only: fillBoardWithin.simps fc option.case prod.case)
    ultimately show ?thesis using loop[of nums rnd1] sn by simp
  qed
qed

lemma emptyCells_emptyGrid: "emptyCells emptyGrid = 81"
  by (simp add: emptyCells_def emptyGrid_def isEmptyCell_def sum_list_replicate)

lemma no_fill_two_in_row:
  assumes d: "dims9 board" and c: "c1 < 9" "c2 < 9" "c1 \<noteq> c2"
    and cells: "\<And>p. p \<in> set allCells \<Longrightarrow>
      cellAt board p = (if p = (0, c1) \<or> p = (0, c2) then Some v else None)"
    and v: "1 \<le> v" "v \<le> 9"
  shows "fills board = {}"
proof -
  have False if s: "s \<in> fills board" for s
  proof -
    from s have full: "fullBoard s"
      and agree: "\<And>q. q \<in> set allCells \<Longrightarrow> \<not> isEmptyCell (cellAt board q) \<Longrightarrow> cellAt s q = cellAt board q"
      and diff: "\<And>x y. x \<in> set allCells \<Longrightarrow> y \<in> set allCells \<Longrightarrow> x \<noteq> y \<Longrightarrow> sameUnit x y \<Longrightarrow>
          isEmptyCell (cellAt board x) \<or> isEmptyCell (cellAt board y) \<Longrightarrow> cellAt s x \<noteq> cellAt s y"
      unfolding fills_mem by blast+
    have emp: "isEmptyCell (cellAt board (r, c))" if "r < 9" "c < 9" "r \<noteq> 0" for r c
      using cells[of "(r, c)"] that by (simp add: set_allCells isEmptyCell_def)
    have top: "cellAt s (0, c) = Some v" if "c = c1 \<or> c = c2" for c
    proof -
      have "(0, c) \<in> set allCells" using that c by (auto simp: set_allCells)
      moreover from this have "cellAt board (0, c) = Some v" using cells[of "(0, c)"] that by auto
      ultimately show ?thesis using agree[of "(0, c)"] v by (simp add: isEmptyCell_def)
    qed
    have ex: "\<exists>c<9. cellAt s (r, c) = Some v" if r: "r < 9" "r \<noteq> 0" for r
    proof -
      let ?g = "\<lambda>c. cellAt s (r, c)"
      have inj: "inj_on ?g {0..<9}"
      proof (rule inj_onI)
        fix x y assume xy: "x \<in> {0..<9}" "y \<in> {0..<9}" "?g x = ?g y"
        show "x = y"
        proof (rule ccontr)
          assume "x \<noteq> y"
          then have "cellAt s (r, x) \<noteq> cellAt s (r, y)"
            using xy(1,2) r emp[of r x]
            by (intro diff) (auto simp: set_allCells sameUnit_def)
          with xy(3) show False by simp
        qed
      qed
      have sub: "?g ` {0..<9} \<subseteq> Some ` {1..9}"
      proof
        fix w assume "w \<in> ?g ` {0..<9}"
        then obtain c where "c < 9" "w = cellAt s (r, c)" by auto
        then show "w \<in> Some ` {1..9}"
          using fullBoardD(2)[OF full, of "(r, c)"] r by (auto simp: set_allCells)
      qed
      have "card (?g ` {0..<9}) = 9" using card_image[OF inj] by simp
      moreover have "card (Some ` {1..9::nat}) = 9" by (simp add: card_image)
      ultimately have "?g ` {0..<9} = Some ` {1..9}"
        using sub by (intro card_subset_eq) simp_all
      then have "Some v \<in> ?g ` {0..<9}" using v by auto
      then show ?thesis by auto
    qed
    then have "\<forall>r \<in> {1..<9}. \<exists>c. c < 9 \<and> cellAt s (r, c) = Some v" by auto
    then obtain f where f: "\<And>r. r \<in> {1..<9} \<Longrightarrow> f r < 9 \<and> cellAt s (r, f r) = Some v"
      using bchoice[of "{1..<9}" "\<lambda>r c. c < 9 \<and> cellAt s (r, c) = Some v"] by blast
    have notc: "f r \<noteq> c" if "r \<in> {1..<9}" "c = c1 \<or> c = c2" for r c
    proof
      assume eq: "f r = c"
      have "cellAt s (r, c) \<noteq> cellAt s (0, c)"
        using that c emp[of r c]
        by (intro diff) (auto simp: set_allCells sameUnit_def)
      then show False using f[OF that(1)] top[OF that(2)] eq by simp
    qed
    have inj: "inj_on f {1..<9}"
    proof (rule inj_onI)
      fix r r' assume rr: "r \<in> {1..<9}" "r' \<in> {1..<9}" "f r = f r'"
      show "r = r'"
      proof (rule ccontr)
        assume "r \<noteq> r'"
        then have "cellAt s (r, f r) \<noteq> cellAt s (r', f r)"
          using rr(1,2) f[OF rr(1)] emp[of r "f r"]
          by (intro diff) (auto simp: set_allCells sameUnit_def)
        then show False using f[OF rr(1)] f[OF rr(2)] rr(3) by simp
      qed
    qed
    have "f ` {1..<9} \<subseteq> {0..<9} - {c1, c2}" using f notc by force
    then have "card (f ` {1..<9}) \<le> card ({0..<9} - {c1, c2})" by (intro card_mono) simp_all
    moreover have "card (f ` {1..<9}) = 8" using card_image[OF inj] by simp
    moreover have "card ({0..<9} - {c1, c2}) = 7" using c by (simp add: card_Diff_insert)
    ultimately show False by simp
  qed
  then show ?thesis by blast
qed

lemma twoFives_cells:
  "\<forall>p \<in> set allCells. cellAt twoFives p = (if p = (0, 0) \<or> p = (0, 4) then Some 5 else None)"
  by code_simp

lemma twoFives_wf: "wfBoard twoFives"
  by code_simp

lemma twoFives_clash:
  "\<forall>p \<in> set allCells. \<forall>q \<in> set allCells. clash twoFives p q \<longrightarrow> {p, q} = {(0, 0), (0, 4)}"
proof (intro ballI impI)
  fix p q assume pq: "p \<in> set allCells" "q \<in> set allCells" "clash twoFives p q"
  then have "cellAt twoFives p \<noteq> None" "cellAt twoFives q \<noteq> None" "p \<noteq> q"
    by (auto simp: clash_def)
  moreover have "cellAt twoFives p = (if p = (0, 0) \<or> p = (0, 4) then Some 5 else None)"
    "cellAt twoFives q = (if q = (0, 0) \<or> q = (0, 4) then Some 5 else None)"
    using twoFives_cells pq(1,2) by blast+
  ultimately have "p = (0, 0) \<or> p = (0, 4)" "q = (0, 0) \<or> q = (0, 4)"
    by (auto split: if_splits)
  with \<open>p \<noteq> q\<close> show "{p, q} = {(0, 0), (0, 4)}" by auto
qed

section \<open>The store: proofs\<close>

lemma boardOf_length: "length (boardOf h a) = length a"
  by (simp add: boardOf_def)

lemma boardOf_append:
  assumes "set a \<subseteq> {..<length h}"
  shows "boardOf (h @ rows) a = boardOf h a"
  using assms by (auto simp: boardOf_def nth_append)

lemma boardOf_take:
  assumes "set a \<subseteq> {..<n}" "take n h' = take n h"
  shows "boardOf h' a = boardOf h a"
proof -
  have "h' ! x = h ! x" if "x \<in> set a" for x
  proof -
    from that assms(1) have "x < n" by auto
    then have "h' ! x = take n h' ! x" "h ! x = take n h ! x" by simp_all
    with assms(2) show ?thesis by simp
  qed
  then show ?thesis by (simp add: boardOf_def)
qed

lemma allocBoard_facts:
  assumes "allocBoard h rows = (h1, a)"
  shows "h1 = h @ rows" and "boardOf h1 a = rows" and "distinct a"
    and "set a \<subseteq> {..<length h1}" and "\<And>x. x \<in> set a \<Longrightarrow> length h \<le> x"
    and "length a = length rows"
proof -
  from assms have h1: "h1 = h @ rows" and a: "a = [length h..<length h + length rows]"
    by (simp_all add: allocBoard_def)
  show "h1 = h @ rows" by fact
  show "boardOf h1 a = rows"
    unfolding h1 a boardOf_def by (rule nth_equalityI) (simp_all add: nth_append)
  show "distinct a" "length a = length rows" by (simp_all add: a)
  show "set a \<subseteq> {..<length h1}" by (auto simp: a h1)
  show "length h \<le> x" if "x \<in> set a" for x using that by (simp add: a)
qed

lemma writeCell_length: "length (writeCell h b r c v) = length h"
  by (simp add: writeCell_def)

lemma writeCell_take:
  assumes "r < length b" "\<And>x. x \<in> set b \<Longrightarrow> n \<le> x"
  shows "take n (writeCell h b r c v) = take n h"
proof -
  have "n \<le> b ! r" using assms by simp
  then show ?thesis by (simp add: writeCell_def)
qed

lemma boardOf_writeCell:
  assumes "distinct b" "set b \<subseteq> {..<length h}" "row < length b"
  shows "boardOf (writeCell h b row col v) b = setCell (boardOf h b) row col v"
proof (rule nth_equalityI)
  show "length (boardOf (writeCell h b row col v) b) = length (setCell (boardOf h b) row col v)"
    by (simp add: boardOf_def setCell_def)
next
  fix i assume "i < length (boardOf (writeCell h b row col v) b)"
  then have i: "i < length b" by (simp add: boardOf_def)
  have lt: "b ! row < length h" "b ! i < length h" using assms(2,3) i by (auto simp: subset_iff)
  have eq: "b ! row = b ! i \<longleftrightarrow> row = i"
    using assms(1,3) i by (simp add: nth_eq_iff_index_eq)
  show "boardOf (writeCell h b row col v) b ! i = setCell (boardOf h b) row col v ! i"
    using i assms(3) lt eq
    by (auto simp: boardOf_def writeCell_def setCell_def nth_list_update)
qed

lemma solveH_refines:
  assumes "distinct b" "set b \<subseteq> {..<length h}" "\<And>x. x \<in> set b \<Longrightarrow> n \<le> x"
    "wfBoard (boardOf h b)"
  shows "\<exists>ok h'. solveH b h = Some (ok, h') \<and> solve (boardOf h b) = Some (ok, boardOf h' b) \<and>
    length h \<le> length h' \<and> take n h' = take n h"
  using assms(2,4)
proof (induction "emptyCells (boardOf h b)" arbitrary: h rule: less_induct)
  case less
  define V where "V = boardOf h b"
  note refs = less.prems(1)
  have wf: "wfBoard V" using less.prems(2) by (simp add: V_def)
  have lenb: "length b = 9"
    using dims9D(1)[OF wfBoardD(1)[OF wf]] by (simp add: V_def boardOf_length)
  have nle: "n \<le> length g" if "set b \<subseteq> {..<length g}" for g :: heap
  proof -
    have "b ! 0 \<in> set b" using lenb by simp
    then have "n \<le> b ! 0" "b ! 0 < length g" using assms(3) that by auto
    then show ?thesis by simp
  qed
  show ?case
  proof (cases "firstCell (\<lambda>v. v = None) V")
    case None
    have "solveH b h = Some (True, h)"
      by (subst solveH.simps) (simp only: V_def[symmetric] None option.case)
    moreover have "solve V = Some (True, V)"
      by (subst solve.simps) (simp only: None option.case)
    ultimately show ?thesis by (auto simp: V_def)
  next
    case (Some x)
    obtain row col where x: "x = (row, col)" by (cases x)
    note fc = Some[unfolded x]
    from firstCell_Some[OF fc] have pin: "(row, col) \<in> set allCells"
      and pnone: "cellAt V (row, col) = None" by auto
    have rowb: "row < length b" using pin lenb by (simp add: set_allCells)
    define L where "L = [1, 2, 3, 4, 5, 6, 7, 8, 9::nat]"
    have setL: "num \<noteq> 0 \<and> 1 \<le> num \<and> num \<le> 9" if "num \<in> set L" for num
      using that by (auto simp: L_def)
    have loop: "\<exists>ok h'. solveNumsH (solveH b) b row col nums g = Some (ok, h') \<and>
        solveNums solve row col nums V = Some (ok, boardOf h' b) \<and>
        length g \<le> length h' \<and> take n h' = take n g"
      if "set nums \<subseteq> set L" "boardOf g b = V" "set b \<subseteq> {..<length g}" for nums g
      using that
    proof (induction nums arbitrary: g)
      case Nil
      then show ?case by auto
    next
      case (Cons num nums)
      from Cons.prems(1) have numL: "num \<in> set L" and sub: "set nums \<subseteq> set L" by auto
      note n0 = setL[OF numL]
      define rows where "rows = map (map nullToZero) V"
      obtain h1 filled where al: "allocBoard g rows = (h1, filled)" by (cases "allocBoard g rows")
      note af = allocBoard_facts[OF al]
      have v1: "boardOf h1 b = V" using boardOf_append[OF Cons.prems(3)] af(1) Cons.prems(2) by simp
      have refs1: "set b \<subseteq> {..<length h1}" using Cons.prems(3) af(1) by auto
      have len1: "length g \<le> length h1" using af(1) by simp
      have t1: "take n h1 = take n g" using nle[OF Cons.prems(3)] af(1) by simp
      have test: "isValid (boardOf h1 filled) row col num = isValid V row col num"
        unfolding af(2) rows_def using isValid_nullToZero[OF wfBoardD(1)[OF wf] pin] n0 by simp
      have nz: "isValid (map (map nullToZero) V) row col num = isValid V row col num"
        using isValid_nullToZero[OF wfBoardD(1)[OF wf] pin] n0 by simp
      have unfoldH: "solveNumsH (solveH b) b row col (num # nums) g =
          (if isValid V row col num then
             Option.bind (solveH b (writeCell h1 b row col (Some num)))
               (\<lambda>(ok, h2). if ok then Some (True, h2)
                  else solveNumsH (solveH b) b row col nums (writeCell h2 b row col None))
           else solveNumsH (solveH b) b row col nums h1)"
        using al test by (simp add: Cons.prems(2) rows_def)
      show ?case
      proof (cases "isValid V row col num")
        case False
        from Cons.IH[OF sub v1 refs1] obtain ok h' where
          r: "solveNumsH (solveH b) b row col nums h1 = Some (ok, h')"
            "solveNums solve row col nums V = Some (ok, boardOf h' b)"
            "length h1 \<le> length h'" "take n h' = take n h1" by blast
        then show ?thesis using False unfoldH nz len1 t1 by auto
      next
        case True
        let ?C = "setCell V row col (Some num)"
        let ?g2 = "writeCell h1 b row col (Some num)"
        have v2: "boardOf ?g2 b = ?C" using boardOf_writeCell[OF assms(1) refs1 rowb] v1 by simp
        have refs2: "set b \<subseteq> {..<length ?g2}" using refs1 by (simp add: writeCell_length)
        have wfC: "wfBoard ?C" using wfBoard_setCell[OF wf pin] n0 by simp
        have "emptyCells ?C < emptyCells V"
          using firstCell_SomeD[OF fc] n0 by (intro emptyCells_setCell) (auto simp: isEmptyCell_def)
        then have "emptyCells (boardOf ?g2 b) < emptyCells (boardOf h b)"
          by (simp add: v2 V_def)
        from less.hyps[OF this refs2] wfC v2 obtain ok h2 where
          r: "solveH b ?g2 = Some (ok, h2)" "solve ?C = Some (ok, boardOf h2 b)"
            "length ?g2 \<le> length h2" "take n h2 = take n ?g2" by auto
        have t2: "take n h2 = take n g"
          using r(4) writeCell_take[OF rowb assms(3), of h1 col "Some num"] t1 by simp
        have len2: "length g \<le> length h2" using r(3) len1 by (simp add: writeCell_length)
        show ?thesis
        proof (cases ok)
          case ok: True
          then show ?thesis using True unfoldH nz r(1,2) len2 t2 by auto
        next
          case nok: False
          from solve_fills[OF wfC] r(2) nok have restored: "boardOf h2 b = ?C" by (auto split: if_splits)
          let ?g3 = "writeCell h2 b row col None"
          have refs3: "set b \<subseteq> {..<length h2}" using refs2 r(3) by auto
          have "boardOf ?g3 b = setCell ?C row col None"
            using boardOf_writeCell[OF assms(1) refs3 rowb] restored by simp
          also have "\<dots> = V" unfolding setCell_setCell using pnone by (rule setCell_same)
          finally have v3: "boardOf ?g3 b = V" .
          have refs3': "set b \<subseteq> {..<length ?g3}" using refs3 by (simp add: writeCell_length)
          from Cons.IH[OF sub v3 refs3'] obtain ok' h' where
            r': "solveNumsH (solveH b) b row col nums ?g3 = Some (ok', h')"
              "solveNums solve row col nums V = Some (ok', boardOf h' b)"
              "length ?g3 \<le> length h'" "take n h' = take n ?g3" by blast
          have "take n h' = take n g"
            using r'(4) writeCell_take[OF rowb assms(3), of h2 col None] t2 by simp
          moreover have "length g \<le> length h'" using r'(3) len2 by (simp add: writeCell_length)
          moreover have "setCell (boardOf h2 b) row col None = V"
            unfolding restored setCell_setCell using pnone by (rule setCell_same)
          ultimately show ?thesis using True unfoldH nz r(1,2) nok r'(1,2) by auto
        qed
      qed
    qed
    have "solveH b h = solveNumsH (solveH b) b row col L h"
      unfolding L_def by (subst solveH.simps) (simp only: V_def[symmetric] fc option.case prod.case)
    moreover have "solve V = solveNums solve row col L V"
      unfolding L_def by (subst solve.simps) (simp only: fc option.case prod.case)
    ultimately show ?thesis using loop[of L h] refs by (auto simp: V_def)
  qed
qed

lemma take_prefix_trans:
  assumes "take (length g) h1 = g" "take (length h1) h' = h1" "length g \<le> length h1"
  shows "take (length g) h' = g"
proof -
  have "take (length g) h' = take (length g) (take (length h1) h')"
    using assms(3) by (simp add: min_def)
  then show ?thesis using assms(1,2) by simp
qed

lemma countSolutionsH_refines:
  assumes "set board \<subseteq> {..<length h}" "boardOf h board = V"
  shows "\<exists>h'. countSolutionsH board limit h = Some (countSolutions V limit, h') \<and>
    length h \<le> length h' \<and> take (length h) h' = h"
  using assms
proof (induction V limit arbitrary: board h rule: countSolutions.induct)
  case (1 V limit)
  note refs = "1.prems"(1) and hv = "1.prems"(2)
  show ?case
  proof (cases "firstCell (\<lambda>v. v = None) V")
    case None
    have "countSolutionsH board limit h = Some (1, h)"
      by (subst countSolutionsH.simps) (simp only: hv None option.case)
    moreover have "countSolutions V limit = 1"
      by (subst countSolutions.simps) (simp only: None option.case)
    ultimately show ?thesis by simp
  next
    case (Some x)
    obtain row col where x: "x = (row, col)" by (cases x)
    note fc = Some[unfolded x]
    have rowV: "row < length V" using firstCell_SomeD(3)[OF fc] .
    define L where "L = [1, 2, 3, 4, 5, 6, 7, 8, 9::nat]"
    let ?valid = "isValid V row col"
    let ?child = "\<lambda>num. map (map zeroToNull) (setCell V row col (Some num))"
    let ?br = "\<lambda>num budget. countSolutions (?child num) budget"
    have loop: "\<exists>h'. countNumsH countSolutionsH board row col limit nums count g =
          Some (countNums ?valid ?br limit nums count, h') \<and>
        length g \<le> length h' \<and> take (length g) h' = g"
      if "set nums \<subseteq> set L" "boardOf g board = V" "set board \<subseteq> {..<length g}" for nums count g
      using that
    proof (induction nums arbitrary: count g)
      case Nil
      show ?case by simp
    next
      case (Cons num nums)
      from Cons.prems(1) have numL: "num \<in> set [1, 2, 3, 4, 5, 6, 7, 8, 9::nat]"
        and sub: "set nums \<subseteq> set L" by (auto simp: L_def)
      obtain h1 filled where al: "allocBoard g V = (h1, filled)" by (cases "allocBoard g V")
      note af = allocBoard_facts[OF al]
      have v1: "boardOf h1 board = V" using boardOf_append[OF Cons.prems(3)] af(1) Cons.prems(2) by simp
      have refs1: "set board \<subseteq> {..<length h1}" using Cons.prems(3) af(1) by auto
      have len1: "length g \<le> length h1" using af(1) by simp
      have t1: "take (length g) h1 = g" using af(1) by simp
      let ?h2 = "writeCell h1 filled row col (Some num)"
      let ?C = "setCell V row col (Some num)"
      obtain h3 child where al3: "allocBoard ?h2 (?child num) = (h3, child)"
        by (cases "allocBoard ?h2 (?child num)")
      note af3 = allocBoard_facts[OF al3]
      have rowf: "row < length filled" using rowV af(6) by simp
      have v2: "boardOf ?h2 filled = ?C"
        using boardOf_writeCell[OF af(3,4) rowf] af(2) by simp
      have unfoldH: "countNumsH countSolutionsH board row col limit (num # nums) count g =
          (if ?valid num then
             Option.bind (countSolutionsH child (limit - count) h3)
               (\<lambda>(k, h4). let count' = count + k
                  in if count' \<ge> limit then Some (count', h4)
                     else countNumsH countSolutionsH board row col limit nums count' h4)
           else countNumsH countSolutionsH board row col limit nums count h1)"
        using al al3 by (simp add: Cons.prems(2) af(2) v2 Let_def)
      show ?case
      proof (cases "?valid num")
        case False
        from Cons.IH[OF sub v1 refs1, where count = count] obtain h' where
          r: "countNumsH countSolutionsH board row col limit nums count h1 =
              Some (countNums ?valid ?br limit nums count, h')"
            "length h1 \<le> length h'" "take (length h1) h' = h1" by blast
        have "take (length g) h' = g" using take_prefix_trans[OF t1 r(3) len1] .
        then show ?thesis using False unfoldH r(1,2) len1 by simp
      next
        case True
        have len2: "length ?h2 = length h1" by (rule writeCell_length)
        have t2: "take (length g) ?h2 = g"
          using writeCell_take[OF rowf af(5), of h1 col "Some num"] t1 by simp
        have t3: "take (length g) h3 = g" using af3(1) t2 len1 len2 by simp
        have len3: "length g \<le> length h3" using af3(1) len1 len2 by simp
        from "1.IH"[OF fc refl numL True af3(4,2), where k = "limit - count"] obtain h4 where
          r: "countSolutionsH child (limit - count) h3 = Some (countSolutions (?child num) (limit - count), h4)"
            "length h3 \<le> length h4" "take (length h3) h4 = h3" by blast
        have t4: "take (length g) h4 = g" using take_prefix_trans[OF t3 r(3) len3] .
        have len4: "length g \<le> length h4" using r(2) len3 by simp
        let ?c' = "count + countSolutions (?child num) (limit - count)"
        show ?thesis
        proof (cases "?c' \<ge> limit")
          case ge: True
          then show ?thesis using True unfoldH r(1) len4 t4 by (simp add: Let_def)
        next
          case lt: False
          have v4: "boardOf h4 board = V"
            using boardOf_take[of board "length g" h4 g] Cons.prems(2,3) t4 by simp
          have refs4: "set board \<subseteq> {..<length h4}" using Cons.prems(3) len4 by auto
          from Cons.IH[OF sub v4 refs4, where count = ?c'] obtain h' where
            r': "countNumsH countSolutionsH board row col limit nums ?c' h4 =
                Some (countNums ?valid ?br limit nums ?c', h')"
              "length h4 \<le> length h'" "take (length h4) h' = h4" by blast
          have "take (length g) h' = g" using take_prefix_trans[OF t4 r'(3) len4] .
          then show ?thesis using True unfoldH r(1) lt r'(1,2) len4 by (simp add: Let_def)
        qed
      qed
    qed
    have "countSolutionsH board limit h = countNumsH countSolutionsH board row col limit L 0 h"
      unfolding L_def by (subst countSolutionsH.simps) (simp only: hv fc option.case prod.case)
    moreover have "countSolutions V limit = countNums ?valid ?br limit L 0"
      unfolding L_def by (subst countSolutions.simps) (simp only: fc option.case prod.case)
    ultimately show ?thesis using loop[where nums = L and g = h and count = 0, OF _ hv refs] by simp
  qed
qed

lemma solvePuzzleH_refines:
  assumes "set board \<subseteq> {..<length h}" "wfBoard (boardOf h board)"
  shows "\<exists>r h'. solvePuzzleH board h = Some (r, h') \<and> take (length h) h' = h \<and>
    solvePuzzle (boardOf h board) = Some (map_option (boardOf h') r)"
proof -
  define V where "V = boardOf h board"
  obtain h1 b where al: "allocBoard h V = (h1, b)" by (cases "allocBoard h V")
  note af = allocBoard_facts[OF al]
  have wf1: "wfBoard (boardOf h1 b)" using assms(2) af(2) by (simp add: V_def)
  from solveH_refines[OF af(3,4,5) wf1] obtain ok h2 where
    r: "solveH b h1 = Some (ok, h2)" "solve (boardOf h1 b) = Some (ok, boardOf h2 b)"
      "length h1 \<le> length h2" "take (length h) h2 = take (length h) h1" by blast
  have t: "take (length h) h2 = h" using r(4) af(1) by simp
  have "solvePuzzleH board h = Some (if ok then Some b else None, h2)"
    using al r(1) by (simp add: solvePuzzleH_def V_def)
  moreover have "solvePuzzle V = Some (if ok then Some (boardOf h2 b) else None)"
    using r(2) af(2) by (simp add: solvePuzzle_def copyBoard_id)
  ultimately show ?thesis using t by (auto simp: V_def)
qed

section \<open>The claims of the specification\<close>

text \<open>
  C1. For every difficulty and every random source, \<open>generatePuzzle\<close> returns a puzzle
  and a solution such that the solution is a valid Solution, the puzzle is well formed and
  free of clashes, and the puzzle has exactly one completion that is a valid Solution,
  namely the solution returned with it. The carving loop never keeps a removal that breaks
  this: started on a puzzle within a Solution that is its only completion, on any list of
  coordinates of the grid and with any counts, it ends on a puzzle with that one
  completion.
\<close>

theorem generatePuzzle_unique:
  "(\<exists>puzzle solution. generatePuzzle rnd difficulty = Some (puzzle, solution) \<and>
      isSolution solution \<and> wfBoard puzzle \<and> noClash puzzle \<and> completions puzzle = {solution}) \<and>
   (\<forall>solution puzzle cells removed target.
      isSolution solution \<and> within puzzle solution \<and> completions puzzle = {solution} \<and>
      set cells \<subseteq> set allCells \<longrightarrow>
      completions (carve puzzle cells removed target) = {solution})"
proof (intro conjI allI impI)
  from generatePuzzle_carved[of rnd difficulty] obtain puzzle solution
    where gen: "generatePuzzle rnd difficulty = Some (puzzle, solution)"
      and sol: "isSolution solution" and w: "within puzzle solution"
      and c: "completions puzzle = {solution}" by (elim exE conjE)
  show "\<exists>puzzle solution. generatePuzzle rnd difficulty = Some (puzzle, solution) \<and>
      isSolution solution \<and> wfBoard puzzle \<and> noClash puzzle \<and> completions puzzle = {solution}"
    using gen sol c within_wf[OF sol w] within_noClash[OF sol w]
    by (intro exI[of _ puzzle] exI[of _ solution]) simp
next
  fix solution puzzle cells removed target
  assume "isSolution solution \<and> within puzzle solution \<and> completions puzzle = {solution} \<and>
      set cells \<subseteq> set allCells"
  then have "isSolution solution" "within puzzle solution" "completions puzzle = {solution}"
    "set cells \<subseteq> set allCells" by simp_all
  from carve_inv[OF this]
  show "completions (carve puzzle cells removed target) = {solution}" by (rule conjunct2)
qed

text \<open>
  The same at the random source of zeros and the tier \<open>Easy\<close>, and for the carving loop
  started on the example solution with the first coordinate to visit and one removal to
  make.
\<close>

theorem generatePuzzle_unique_witness:
  "(\<exists>puzzle solution. generatePuzzle (\<lambda>n. 0) Easy = Some (puzzle, solution) \<and>
      isSolution solution \<and> wfBoard puzzle \<and> noClash puzzle \<and> completions puzzle = {solution}) \<and>
   completions (carve exampleSolution [(0, 0)] 0 1) = {exampleSolution}"
proof -
  note t = generatePuzzle_unique[of "\<lambda>n. 0" Easy]
  have h: "isSolution exampleSolution \<and> within exampleSolution exampleSolution \<and>
      completions exampleSolution = {exampleSolution} \<and> set [(0, 0)] \<subseteq> set allCells"
    using exampleSolution_sol completions_solution[OF exampleSolution_sol]
      within_refl[OF wfBoardD(1)[OF exampleSolution_wf]]
    by (simp add: set_allCells)
  have k: "completions (carve exampleSolution [(0, 0)] 0 1) = {exampleSolution}"
    by (rule t[THEN conjunct2, rule_format, OF h])
  have g: "\<exists>puzzle solution. generatePuzzle (\<lambda>n. 0) Easy = Some (puzzle, solution) \<and>
      isSolution solution \<and> wfBoard puzzle \<and> noClash puzzle \<and> completions puzzle = {solution}"
    by (rule t[THEN conjunct1])
  from g k show ?thesis by (rule conjI)
qed

text \<open>
  C2. For every puzzle and solution returned by \<open>generatePuzzle\<close>, \<open>solvePuzzle\<close>
  on the puzzle succeeds and returns the solution, cell for cell.
\<close>

theorem generatePuzzle_solvePuzzle:
  "\<exists>puzzle solution. generatePuzzle rnd difficulty = Some (puzzle, solution) \<and>
     solvePuzzle puzzle = Some (Some solution)"
proof -
  from generatePuzzle_carved[of rnd difficulty] obtain puzzle solution
    where gen: "generatePuzzle rnd difficulty = Some (puzzle, solution)"
      and sol: "isSolution solution" and w: "within puzzle solution"
      and c: "completions puzzle = {solution}" by (elim exE conjE)
  have "fills puzzle = {solution}"
    using fills_completions[OF within_wf[OF sol w] within_noClash[OF sol w]] c by simp
  with solvePuzzle_fills[OF within_wf[OF sol w]] have "solvePuzzle puzzle = Some (Some solution)"
    by auto
  with gen show ?thesis by (intro exI[of _ puzzle] exI[of _ solution]) simp
qed

text \<open>
  The same at the random source of zeros and the tier \<open>Easy\<close>.
\<close>

theorem generatePuzzle_solvePuzzle_witness:
  "\<exists>puzzle solution. generatePuzzle (\<lambda>n. 0) Easy = Some (puzzle, solution) \<and>
     solvePuzzle puzzle = Some (Some solution)"
  by (rule generatePuzzle_solvePuzzle)

text \<open>
  C3. For every difficulty, the puzzle returned by \<open>generatePuzzle\<close> has at least as
  many non-empty cells as the tier's clue target (40, 32, 26, 22), and each of its
  non-empty cells holds the value of the returned solution at the same coordinate.
\<close>

theorem generatePuzzle_clues:
  "\<exists>puzzle solution. generatePuzzle rnd difficulty = Some (puzzle, solution) \<and>
     DIFFICULTY_CLUES difficulty \<le> clueCount puzzle \<and>
     (\<forall>p \<in> set allCells. cellAt puzzle p \<noteq> None \<longrightarrow> cellAt puzzle p = cellAt solution p)"
proof -
  from generatePuzzle_carved[of rnd difficulty] obtain puzzle solution
    where gen: "generatePuzzle rnd difficulty = Some (puzzle, solution)"
      and w: "within puzzle solution"
      and c: "DIFFICULTY_CLUES difficulty \<le> clueCount puzzle" by (elim exE conjE)
  from w have "\<forall>p \<in> set allCells. cellAt puzzle p \<noteq> None \<longrightarrow> cellAt puzzle p = cellAt solution p"
    unfolding within_def by auto
  with gen c show ?thesis by (intro exI[of _ puzzle] exI[of _ solution]) simp
qed

text \<open>
  The same at the random source of zeros and the tier \<open>Expert\<close>.
\<close>

theorem generatePuzzle_clues_witness:
  "\<exists>puzzle solution. generatePuzzle (\<lambda>n. 0) Expert = Some (puzzle, solution) \<and>
     DIFFICULTY_CLUES Expert \<le> clueCount puzzle \<and>
     (\<forall>p \<in> set allCells. cellAt puzzle p \<noteq> None \<longrightarrow> cellAt puzzle p = cellAt solution p)"
  by (rule generatePuzzle_clues)

text \<open>
  C4. \<open>generatePuzzle\<close> never fails. For every difficulty and every random source,
  \<open>fillBoard\<close> on the grid of zeros returns, it returns \<open>true\<close>, and the grid it
  leaves has a digit from 1 to 9 in every cell. The run with the depth of nested calls
  bounded by the 81 empty cells of the grid (the outermost call and at most 81 calls nested
  inside one another) gives the same result, so the recursion never goes deeper.
\<close>

theorem generatePuzzle_never_fails:
  "\<exists>rnd' solution.
     fillBoard rnd emptyGrid = Some (True, rnd', solution) \<and>
     fillBoardWithin (emptyCells emptyGrid + 1) rnd emptyGrid = Some (True, rnd', solution) \<and>
     fullBoard solution \<and>
     (\<exists>puzzle. generatePuzzle rnd difficulty = Some (puzzle, solution))"
proof -
  from generatePuzzle_result[of rnd difficulty] obtain rnd1 solution cells
    where fb: "fillBoard rnd emptyGrid = Some (True, rnd1, solution)"
      and sol: "isSolution solution" and "set cells \<subseteq> set allCells"
      and gen: "generatePuzzle rnd difficulty =
         Some (carve solution cells 0 (81 - DIFFICULTY_CLUES difficulty), solution)"
    by (elim exE conjE)
  have "fillBoardWithin (emptyCells emptyGrid + 1) rnd emptyGrid = fillBoard rnd emptyGrid"
    by (rule fillBoardWithin_eq[OF emptyGrid_zero]) simp
  with fb gen isSolution_full[OF sol] show ?thesis
    by (intro exI[of _ rnd1] exI[of _ solution]) simp
qed

text \<open>
  The same at the random source of zeros and the tier \<open>Hard\<close>.
\<close>

theorem generatePuzzle_never_fails_witness:
  "\<exists>rnd' solution.
     fillBoard (\<lambda>n. 0) emptyGrid = Some (True, rnd', solution) \<and>
     fillBoardWithin (emptyCells emptyGrid + 1) (\<lambda>n. 0) emptyGrid = Some (True, rnd', solution) \<and>
     fullBoard solution \<and>
     (\<exists>puzzle. generatePuzzle (\<lambda>n. 0) Hard = Some (puzzle, solution))"
  by (rule generatePuzzle_never_fails)

text \<open>
  C5, as amended. For every well-formed grid and every limit of at least 1,
  \<open>countSolutions\<close> returns an integer between 0 and the limit. When no row, column or
  box of the grid holds a value twice among its filled cells, this integer is the minimum
  of the limit and the number of completions of the grid that are valid Solutions; this
  includes a grid that is completely filled.
\<close>

theorem countSolutions_completions:
  assumes "wfBoard board" "1 \<le> limit"
  shows "0 \<le> countSolutions board limit \<and> countSolutions board limit \<le> limit \<and>
    (noClash board \<longrightarrow>
       countSolutions board limit = min limit (int (card (completions board))))"
proof -
  have eq: "countSolutions board limit = min limit (int (card (fills board)))"
    using assms by (rule countSolutions_fills)
  have 1: "0 \<le> countSolutions board limit" unfolding eq using assms(2) by simp
  have 2: "countSolutions board limit \<le> limit" unfolding eq by simp
  have 3: "noClash board \<longrightarrow>
      countSolutions board limit = min limit (int (card (completions board)))"
  proof
    assume "noClash board"
    from fills_completions[OF assms(1) this]
    show "countSolutions board limit = min limit (int (card (completions board)))"
      unfolding eq by simp
  qed
  from 1 2 3 show ?thesis by (intro conjI)
qed

text \<open>
  The amended claim at the example solution with its first cell emptied and limit 2.
\<close>

theorem countSolutions_completions_witness:
  "wfBoard onePuzzle \<and> noClash onePuzzle \<and> (1::int) \<le> 2 \<and>
   0 \<le> countSolutions onePuzzle 2 \<and> countSolutions onePuzzle 2 \<le> 2 \<and>
   countSolutions onePuzzle 2 = min 2 (int (card (completions onePuzzle)))"
  using countSolutions_completions[OF onePuzzle_wf, of 2] onePuzzle_wf onePuzzle_noClash
  by simp

text \<open>
  Without the condition on the filled cells the claim fails: the grid with 1 in every
  cell is well formed and has no completion, and \<open>countSolutions\<close> returns 1 for it,
  since a grid with no empty cell is counted as one solution without being checked.
\<close>

theorem countSolutions_counterexample:
  "wfBoard allOnes \<and> countSolutions allOnes 2 = 1 \<and>
   min 2 (int (card (completions allOnes))) = 0"
proof -
  have "countSolutions allOnes 2 = 1"
    by (subst countSolutions.simps) (simp only: allOnes_full option.case)
  then show ?thesis using allOnes_wf by (simp add: allOnes_completions)
qed

text \<open>
  C6, as amended. For every well-formed grid, \<open>solvePuzzle\<close> returns, and a grid it
  returns has a digit from 1 to 9 in every cell. For every well-formed grid whose filled
  cells hold no value twice in a row, column or box, it returns the failure signal if and
  only if the grid has no completion that is a valid Solution.
\<close>

theorem solvePuzzle_failure_iff:
  assumes "wfBoard board"
  shows "(noClash board \<longrightarrow> (solvePuzzle board = Some None \<longleftrightarrow> completions board = {})) \<and>
    (\<exists>r. solvePuzzle board = Some r) \<and>
    (\<forall>s. solvePuzzle board = Some (Some s) \<longrightarrow> fullBoard s)"
proof (intro conjI impI allI)
  assume nc: "noClash board"
  show "solvePuzzle board = Some None \<longleftrightarrow> completions board = {}"
    using solvePuzzle_fills[OF assms] fills_completions[OF assms nc] by auto
next
  show "\<exists>r. solvePuzzle board = Some r" using solvePuzzle_fills[OF assms] by auto
next
  fix s assume "solvePuzzle board = Some (Some s)"
  then show "fullBoard s" using solvePuzzle_fills[OF assms] by (auto simp: fills_mem)
qed

text \<open>
  The amended claim at the example solution with its first cell emptied.
\<close>

theorem solvePuzzle_failure_iff_witness:
  "wfBoard onePuzzle \<and> noClash onePuzzle \<and>
   (solvePuzzle onePuzzle = Some None \<longleftrightarrow> completions onePuzzle = {}) \<and>
   (\<exists>r. solvePuzzle onePuzzle = Some r) \<and>
   (solvePuzzle onePuzzle = Some (Some exampleSolution) \<and> fullBoard exampleSolution)"
proof -
  note t = solvePuzzle_failure_iff[OF onePuzzle_wf]
  have a: "solvePuzzle onePuzzle = Some None \<longleftrightarrow> completions onePuzzle = {}"
    using t onePuzzle_noClash by (elim conjE) simp
  have b: "\<exists>r. solvePuzzle onePuzzle = Some r" using t by (elim conjE)
  have c: "fullBoard exampleSolution" using t solvePuzzle_onePuzzle by (elim conjE) simp
  show ?thesis using a b c onePuzzle_wf onePuzzle_noClash solvePuzzle_onePuzzle by simp
qed

text \<open>
  Without the condition on the filled cells the claim fails: the grid with 1 in every
  cell is well formed and has no completion, and \<open>solvePuzzle\<close> returns it as solved.
\<close>

theorem solvePuzzle_counterexample:
  "wfBoard allOnes \<and> solvePuzzle allOnes = Some (Some allOnes) \<and> completions allOnes = {}"
  using allOnes_wf solve_allOnes allOnes_completions by simp

text \<open>
  C7. For every grid whose row 0 holds the value 3 in exactly two cells and which is
  empty everywhere else, \<open>countSolutions\<close> returns 0 (for the default limit 2 and for
  every limit of at least 1) and \<open>solvePuzzle\<close> returns the failure signal.
\<close>

theorem two_threes_unsolvable:
  assumes "dims9 board" "c1 < 9" "c2 < 9" "c1 \<noteq> c2"
    and "\<forall>p \<in> set allCells. cellAt board p = (if p = (0, c1) \<or> p = (0, c2) then Some 3 else None)"
    and "1 \<le> limit"
  shows "countSolutions board limit = 0 \<and> solvePuzzle board = Some None"
proof -
  have wf: "wfBoard board"
    using assms(1,5) by (intro wfBoardI) auto
  have e: "fills board = {}"
    using assms(1-5) by (intro no_fill_two_in_row[where v = 3 and ?c1.0 = c1 and ?c2.0 = c2]) auto
  show ?thesis
    using countSolutions_fills[OF wf assms(6)] solvePuzzle_fills[OF wf] e assms(6) by auto
qed

text \<open>
  The same at the grid with 3 at columns 2 and 6 of row 0, with the default limit.
\<close>

theorem two_threes_unsolvable_witness:
  "countSolutions twoThrees 2 = 0 \<and> solvePuzzle twoThrees = Some None"
proof -
  have 1: "dims9 twoThrees" by code_simp
  have 2: "\<forall>p \<in> set allCells. cellAt twoThrees p = (if p = (0, 2) \<or> p = (0, 6) then Some 3 else None)"
    by code_simp
  show ?thesis using two_threes_unsolvable[OF 1 _ _ _ 2, of 2] by simp
qed

text \<open>
  C8. For every well-formed grid, \<open>getConflicts\<close> contains the key of a coordinate
  if and only if the cell there is filled and another cell of its row, column or box
  holds the same value. It is empty for every valid Solution, and for a grid in which two
  cells of one row hold 5 and no other two cells clash it is the set of the keys of these
  two coordinates.
\<close>

theorem getConflicts_spec:
  assumes "wfBoard board"
  shows "(\<forall>r<9. \<forall>c<9. coordKey r c \<in> getConflicts board \<longleftrightarrow> conflictAt board (r, c)) \<and>
    (isSolution board \<longrightarrow> getConflicts board = {}) \<and>
    (\<forall>r c1 c2. r < 9 \<and> c1 < 9 \<and> c2 < 9 \<and> c1 \<noteq> c2 \<and>
        cellAt board (r, c1) = Some 5 \<and> cellAt board (r, c2) = Some 5 \<and>
        (\<forall>p \<in> set allCells. \<forall>q \<in> set allCells.
           clash board p q \<longrightarrow> {p, q} = {(r, c1), (r, c2)}) \<longrightarrow>
        getConflicts board = {coordKey r c1, coordKey r c2})"
proof (intro conjI allI impI)
  fix r c :: nat
  assume rc: "r < 9" "c < 9"
  show "coordKey r c \<in> getConflicts board \<longleftrightarrow> conflictAt board (r, c)"
  proof
    assume "coordKey r c \<in> getConflicts board"
    then obtain r' c' where *: "(r', c') \<in> set allCells" "conflictAt board (r', c')"
      "coordKey r c = coordKey r' c'"
      unfolding getConflicts_char by auto
    from *(1) have "r' < 9" "c' < 9" by (auto simp: set_allCells)
    from coordKey_inj[OF rc this *(3)] *(2) show "conflictAt board (r, c)" by simp
  next
    assume "conflictAt board (r, c)"
    moreover have "(r, c) \<in> set allCells" using rc by (simp add: set_allCells)
    ultimately show "coordKey r c \<in> getConflicts board"
      unfolding getConflicts_char by force
  qed
next
  assume "isSolution board"
  then have "\<not> conflictAt board p" if "p \<in> set allCells" for p
    using isSolution_no_clash[of board p] that by (auto simp: conflictAt_def)
  then show "getConflicts board = {}"
    unfolding getConflicts_char by auto
next
  fix r c1 c2
  assume h: "r < 9 \<and> c1 < 9 \<and> c2 < 9 \<and> c1 \<noteq> c2 \<and>
        cellAt board (r, c1) = Some 5 \<and> cellAt board (r, c2) = Some 5 \<and>
        (\<forall>p \<in> set allCells. \<forall>q \<in> set allCells.
           clash board p q \<longrightarrow> {p, q} = {(r, c1), (r, c2)})"
  then have in1: "(r, c1) \<in> set allCells" and in2: "(r, c2) \<in> set allCells"
    by (auto simp: set_allCells)
  have c12: "clash board (r, c1) (r, c2)" "clash board (r, c2) (r, c1)"
    using h by (auto simp: clash_def sameUnit_def)
  have "{p \<in> set allCells. conflictAt board p} = {(r, c1), (r, c2)}"
  proof (intro set_eqI iffI)
    fix p assume "p \<in> {p \<in> set allCells. conflictAt board p}"
    then obtain q where "p \<in> set allCells" "q \<in> set allCells" "clash board p q"
      by (auto simp: conflictAt_def)
    with h have "{p, q} = {(r, c1), (r, c2)}" by blast
    then show "p \<in> {(r, c1), (r, c2)}" by (auto simp: doubleton_eq_iff)
  next
    fix p assume "p \<in> {(r, c1), (r, c2)}"
    then show "p \<in> {p \<in> set allCells. conflictAt board p}"
      using in1 in2 c12 by (auto simp: conflictAt_def)
  qed
  then show "getConflicts board = {coordKey r c1, coordKey r c2}"
    unfolding getConflicts_char by simp
qed

text \<open>
  The same at the example solution and at the grid with 5 at columns 0 and 4 of row 0.
\<close>

theorem getConflicts_spec_witness:
  "wfBoard twoFives \<and> wfBoard exampleSolution \<and> isSolution exampleSolution \<and>
   (coordKey 0 0 \<in> getConflicts twoFives \<longleftrightarrow> conflictAt twoFives (0, 0)) \<and>
   getConflicts exampleSolution = {} \<and>
   getConflicts twoFives = {coordKey 0 0, coordKey 0 4}"
proof -
  note a = getConflicts_spec[OF twoFives_wf] and b = getConflicts_spec[OF exampleSolution_wf]
  have 1: "coordKey 0 0 \<in> getConflicts twoFives \<longleftrightarrow> conflictAt twoFives (0, 0)"
    using a by simp
  have 2: "getConflicts exampleSolution = {}"
    using b exampleSolution_sol by simp
  have h: "(0::nat) < 9 \<and> (0::nat) < 9 \<and> (4::nat) < 9 \<and> (0::nat) \<noteq> 4 \<and>
      cellAt twoFives (0, 0) = Some 5 \<and> cellAt twoFives (0, 4) = Some 5 \<and>
      (\<forall>p \<in> set allCells. \<forall>q \<in> set allCells.
         clash twoFives p q \<longrightarrow> {p, q} = {(0, 0), (0, 4)})"
    using twoFives_cells twoFives_clash by (simp add: set_allCells)
  have 3: "getConflicts twoFives = {coordKey 0 0, coordKey 0 4}"
    using a h by blast
  show ?thesis using 1 2 3 twoFives_wf exampleSolution_wf exampleSolution_sol by simp
qed

text \<open>
  C9. For every store and every board in it that holds a well-formed grid, \<open>solvePuzzle\<close>
  returns, on success and on failure, with every row array that existed before the call
  as it was (the arrays of the caller's grid among them: it writes to its copy only), and
  what it returns is the result of the function \<open>solvePuzzle\<close> of the grid alone. The
  same holds for \<open>countSolutions\<close>, and \<open>getConflicts\<close> returns the store as it was:
  each operation is a function of the grid it is given.
\<close>

theorem operations_leave_argument:
  assumes "set board \<subseteq> {..<length h}" "wfBoard (boardOf h board)"
  shows "(\<exists>r h'. solvePuzzleH board h = Some (r, h') \<and> take (length h) h' = h \<and>
            solvePuzzle (boardOf h board) = Some (map_option (boardOf h') r)) \<and>
         (\<exists>h'. countSolutionsH board limit h = Some (countSolutions (boardOf h board) limit, h') \<and>
            take (length h) h' = h) \<and>
         getConflictsH board h = (getConflicts (boardOf h board), h)"
proof (intro conjI)
  show "\<exists>r h'. solvePuzzleH board h = Some (r, h') \<and> take (length h) h' = h \<and>
      solvePuzzle (boardOf h board) = Some (map_option (boardOf h') r)"
    using assms by (rule solvePuzzleH_refines)
  show "\<exists>h'. countSolutionsH board limit h = Some (countSolutions (boardOf h board) limit, h') \<and>
      take (length h) h' = h"
    using countSolutionsH_refines[OF assms(1) refl, of limit] by blast
  show "getConflictsH board h = (getConflicts (boardOf h board), h)"
    by (simp add: getConflictsH_def)
qed

text \<open>
  The same at the store that holds the rows of the example solution with its first cell
  emptied, and the board of these nine rows.
\<close>

theorem operations_leave_argument_witness:
  "set [0, 1, 2, 3, 4, 5, 6, 7, 8] \<subseteq> {..<length onePuzzle} \<and>
   wfBoard (boardOf onePuzzle [0, 1, 2, 3, 4, 5, 6, 7, 8]) \<and>
   (\<exists>r h'. solvePuzzleH [0, 1, 2, 3, 4, 5, 6, 7, 8] onePuzzle = Some (r, h') \<and>
      take (length onePuzzle) h' = onePuzzle \<and>
      solvePuzzle (boardOf onePuzzle [0, 1, 2, 3, 4, 5, 6, 7, 8]) = Some (map_option (boardOf h') r)) \<and>
   (\<exists>h'. countSolutionsH [0, 1, 2, 3, 4, 5, 6, 7, 8] 2 onePuzzle =
        Some (countSolutions (boardOf onePuzzle [0, 1, 2, 3, 4, 5, 6, 7, 8]) 2, h') \<and>
      take (length onePuzzle) h' = onePuzzle) \<and>
   getConflictsH [0, 1, 2, 3, 4, 5, 6, 7, 8] onePuzzle =
     (getConflicts (boardOf onePuzzle [0, 1, 2, 3, 4, 5, 6, 7, 8]), onePuzzle)"
proof -
  have 1: "set [0, 1, 2, 3, 4, 5, 6, 7, 8] \<subseteq> {..<length onePuzzle}" by code_simp
  have "boardOf onePuzzle [0, 1, 2, 3, 4, 5, 6, 7, 8] = onePuzzle" by code_simp
  then have 2: "wfBoard (boardOf onePuzzle [0, 1, 2, 3, 4, 5, 6, 7, 8])" using onePuzzle_wf by simp
  show ?thesis using operations_leave_argument[OF 1 2, of 2] 1 2 by simp
qed

text \<open>
  C10. For every well-formed grid \<open>g\<close>, if \<open>solvePuzzle\<close> succeeds and returns the
  grid \<open>s\<close>, then \<open>s\<close> agrees with \<open>g\<close> at every cell that is filled in \<open>g\<close>.
\<close>

theorem solvePuzzle_keeps_clues:
  assumes "wfBoard g" "solvePuzzle g = Some (Some s)"
  shows "agreesWith g s"
proof -
  from solvePuzzle_fills[OF assms(1)] assms(2) have "s \<in> fills g" by auto
  from fills_agrees[OF assms(1) this] show ?thesis .
qed

text \<open>
  The same at the example solution with its first cell emptied.
\<close>

theorem solvePuzzle_keeps_clues_witness:
  "wfBoard onePuzzle \<and> solvePuzzle onePuzzle = Some (Some exampleSolution) \<and>
   agreesWith onePuzzle exampleSolution"
  using solvePuzzle_keeps_clues[OF onePuzzle_wf solvePuzzle_onePuzzle] onePuzzle_wf
    solvePuzzle_onePuzzle
  by simp

end
